theory Spec2Isabelle
  imports Main "HOL-Library.AList"
begin

section \<open>The topology file parser \<open>parse_topofile.py\<close>\<close>

text \<open>
  The module has one working function, \<open>device_calculate(topo_file, case_list)\<close>. It reads
  the topology file line by line, logs a report for every selected case, keeps a test-bed
  vendor counter and finally overrides the counter of the vendor \<open>Any\<close>.

  The embedding:
  \<^item> a Python string is a \<open>string\<close>; a character is read as a code point below 256;
  \<^item> the open file \<open>f\<close> is the list of lines its iterator yields (each line ends with a
    line feed, the last one possibly without);
  \<^item> a \<open>Counter\<close> is an association list in insertion order with distinct keys (a Python
    dictionary iterates and prints in insertion order); reading a missing key gives 0 and
    does not insert it, storing to a key updates it in place or appends it;
  \<^item> Python integers are \<open>int\<close>;
  \<^item> \<open>logging.info\<close> appends an entry to the log, which is part of the state;
  \<^item> an exception is a value: the function returns \<open>Inl\<close> of the exception and of the log
    written before it was raised.
\<close>

subsection \<open>Strings and regular expressions\<close>

definition LF :: char where
  "LF = CHR 0x0A"

text \<open>\<open>str.isspace\<close> of one character, which is also the class \<open>\s\<close> of \<open>re\<close>, for code
  points below 256.\<close>

definition isspace :: "char \<Rightarrow> bool" where
  "isspace c \<longleftrightarrow>
     c \<in> set [CHR 0x09, CHR 0x0A, CHR 0x0B, CHR 0x0C, CHR 0x0D,
               CHR 0x1C, CHR 0x1D, CHR 0x1E, CHR 0x1F, CHR 0x20, CHR 0x85, CHR 0xA0]"

text \<open>\<open>line.strip()\<close>: leading and trailing whitespace removed.\<close>

definition strip :: "string \<Rightarrow> string" where
  "strip s = rev (dropWhile isspace (rev (dropWhile isspace s)))"

text \<open>\<open>re.match(r'\s*#.*', line)\<close> is not \<open>None\<close>: after any whitespace the line goes on
  with \<open>#\<close>.\<close>

definition re_match_comment :: "string \<Rightarrow> bool" where
  "re_match_comment line =
     (case dropWhile isspace line of [] \<Rightarrow> False | c # _ \<Rightarrow> c = CHR ''#'')"

text \<open>
  \<open>re.match(r'(.*)-(.*)', line, re.M | re.I)\<close>, as \<open>None\<close> or the two groups. The match
  starts at the beginning of the line; \<open>.\<close> matches every character but the line feed and
  \<open>*\<close> is greedy. So the first group takes as much as it can of the text before the first
  line feed and gives back until a \<open>-\<close> follows: it ends before the last \<open>-\<close> of that text,
  and the second group is what comes after that \<open>-\<close>.
\<close>

definition re_match_case :: "string \<Rightarrow> (string \<times> string) option" where
  "re_match_case line =
     (let seg = takeWhile (\<lambda>c. c \<noteq> LF) line in
      if CHR ''-'' \<in> set seg
      then Some (rev (tl (dropWhile (\<lambda>c. c \<noteq> CHR ''-'') (rev seg))),
                 rev (takeWhile (\<lambda>c. c \<noteq> CHR ''-'') (rev seg)))
      else None)"

text \<open>\<open>re.split(sep, s)\<close> for a one-character separator: the pieces between the
  separators, empty pieces included; never the empty list.\<close>

fun re_split :: "char \<Rightarrow> string \<Rightarrow> string list" where
  "re_split sep [] = [[]]"
| "re_split sep (c # cs) =
     (let pieces = re_split sep cs in
      if c = sep then [] # pieces else (c # hd pieces) # tl pieces)"

subsection \<open>Counters, the log, exceptions\<close>

type_synonym counter = "(string \<times> int) list"

definition counter_get :: "counter \<Rightarrow> string \<Rightarrow> int" where
  "counter_get d k = (case map_of d k of None \<Rightarrow> 0 | Some n \<Rightarrow> n)"

definition counter_set :: "counter \<Rightarrow> string \<Rightarrow> int \<Rightarrow> counter" where
  "counter_set d k v = AList.update k v d"

definition counter_has :: "counter \<Rightarrow> string \<Rightarrow> bool" where
  "counter_has d k \<longleftrightarrow> k \<in> set (map fst d)"

datatype py_exception =
    AttributeError        \<comment> \<open>\<open>matched_case\<close> is \<open>None\<close> and has no \<open>group\<close>\<close>
  | ValueError_remove     \<comment> \<open>\<open>list.remove(x)\<close>: \<open>x\<close> not in list\<close>
  | ValueError_unpack nat \<comment> \<open>a tuple of this length unpacked into two names\<close>

datatype log_entry =
    Case_header string                     \<comment> \<open>\<open>'case %s:'\<close>\<close>
  | Role_vendor_pair "string list list"    \<comment> \<open>\<open>'\trole-vendor pair: %s'\<close>\<close>
  | Vendor_devices counter                 \<comment> \<open>\<open>'\tvendor devices  : %s'\<close>\<close>
  | Unrecognized_format string py_exception \<comment> \<open>\<open>'Unrecognized format: %s\n%s'\<close>\<close>
  | Case_not_found "string list"           \<comment> \<open>\<open>'Case %s not found'\<close>\<close>
  | Testbed_needed counter                 \<comment> \<open>\<open>'\nTestbed needed vendor devices:%s'\<close>\<close>

type_synonym raised = "py_exception \<times> log_entry list"

record state =
  testbed_vendor_dict :: counter
  case_list :: "string list"
  logged :: "log_entry list"

definition MAX_VENDOR_DEVICE :: int where
  "MAX_VENDOR_DEVICE = 32"

subsection \<open>The body of the loop over the lines\<close>

text \<open>
  Lines 122 to 125: \<open>for _, vendor in role_vendor_list\<close>. Each tuple is unpacked into two
  names, which raises \<open>ValueError\<close> for a tuple of any other length; the tuples before it
  have been counted by then. The pair is \<open>(case_vendor_dict, testbed_vendor_dict)\<close>.
\<close>

fun tally_pairs :: "string list list \<Rightarrow> counter \<times> counter \<Rightarrow> py_exception + counter \<times> counter" where
  "tally_pairs [] (cvd, tvd) = Inr (cvd, tvd)"
| "tally_pairs (device_pair # rest) (cvd, tvd) =
     (case device_pair of
        [_, vendor] \<Rightarrow>
          (let cvd' = counter_set cvd vendor (counter_get cvd vendor + 1);
               tvd' = counter_set tvd vendor
                        (max (counter_get tvd vendor) (counter_get cvd' vendor))
           in tally_pairs rest (cvd', tvd'))
      | _ \<Rightarrow> Inl (ValueError_unpack (length device_pair)))"

text \<open>\<open>case_list.remove(x)\<close>: the first occurrence is removed; \<open>ValueError\<close> when there is
  none.\<close>

definition list_remove :: "string list \<Rightarrow> string \<Rightarrow> py_exception + string list" where
  "list_remove xs x = (if x \<in> set xs then Inr (remove1 x xs) else Inl ValueError_remove)"

text \<open>
  Lines 97 to 127 for one stripped line. \<open>Inr\<close> is the state the next line starts from
  (also after \<open>continue\<close>); \<open>Inl\<close> is an exception that leaves the function. An exception
  raised inside the \<open>try\<close> block (lines 98 to 117) is logged as \<open>Unrecognized format\<close> with
  the line and raised again; the loop of lines 122 to 125 stands after the block, so its
  exception passes with no log entry.

  With \<open>matched_case = None\<close>, the condition of line 103 either evaluates
  \<open>matched_case.group(1)\<close> itself or, when \<open>'all'\<close> is in the list, falls through to
  line 107, which does: both raise \<open>AttributeError\<close> inside the block.
\<close>

definition process_line :: "string \<Rightarrow> state \<Rightarrow> raised + state" where
  "process_line line st =
     (if re_match_comment line then Inr st
      else case re_match_case line of
        None \<Rightarrow> Inl (AttributeError, logged st @ [Unrecognized_format line AttributeError])
      | Some (group1, group2) \<Rightarrow>
          if ''all'' \<notin> set (case_list st) \<and> group1 \<notin> set (case_list st) then Inr st
          else
            (let log1 = logged st @ [Case_header group1] in
             case (if ''all'' \<notin> set (case_list st) then list_remove (case_list st) group1
                   else Inr (case_list st)) of
               Inl e \<Rightarrow> Inl (e, log1 @ [Unrecognized_format line e])
             | Inr case_list' \<Rightarrow>
                 (let role_vendor_str = group2;
                      role_vendor_raw_list = re_split CHR '','' role_vendor_str;
                      role_vendor_list = map (re_split CHR '':'') role_vendor_raw_list;
                      log2 = log1 @ [Role_vendor_pair role_vendor_list]
                  in case tally_pairs role_vendor_list ([], testbed_vendor_dict st) of
                       Inl e \<Rightarrow> Inl (e, log2)
                     | Inr (case_vendor_dict, tvd') \<Rightarrow>
                         Inr \<lparr>testbed_vendor_dict = tvd', case_list = case_list',
                              logged = log2 @ [Vendor_devices case_vendor_dict]\<rparr>)))"

text \<open>Lines 89 to 127: the loop over the lines of the file. An empty line (which the file
  iterator never yields) ends the loop (\<open>break\<close>); every other line is stripped and
  processed.\<close>

fun process_lines :: "string list \<Rightarrow> state \<Rightarrow> raised + state" where
  "process_lines [] st = Inr st"
| "process_lines (line # rest) st =
     (if line = [] then Inr st
      else case process_line (strip line) st of
             Inl e \<Rightarrow> Inl e
           | Inr st' \<Rightarrow> process_lines rest st')"

subsection \<open>After the loop\<close>

text \<open>
  Lines 134 to 139. The loop visits the keys of the dictionary in order. For a key other
  than \<open>'Any'\<close> its count is subtracted from \<open>count_any\<close>; then, in every iteration, the
  count of \<open>'Any'\<close> is stored when \<open>'Any'\<close> is a key. Storing to an existing key does not
  change the keys, so the keys visited are those the dictionary had before the loop.
\<close>

fun any_loop :: "string list \<Rightarrow> int \<times> counter \<Rightarrow> int \<times> counter" where
  "any_loop [] (count_any, tvd) = (count_any, tvd)"
| "any_loop (key # keys) (count_any, tvd) =
     (let count_any' = (if key \<noteq> ''Any'' then count_any - counter_get tvd key else count_any);
          tvd' = (if counter_has tvd ''Any'' then counter_set tvd ''Any'' count_any' else tvd)
      in any_loop keys (count_any', tvd'))"

definition any_override :: "counter \<Rightarrow> counter" where
  "any_override tvd = snd (any_loop (map fst tvd) (MAX_VENDOR_DEVICE, tvd))"

definition initial_state :: "string list \<Rightarrow> state" where
  "initial_state cl = \<lparr>testbed_vendor_dict = [], case_list = cl, logged = []\<rparr>"

text \<open>
  The whole function. The result state holds the final test-bed counter, the caller's
  \<open>case_list\<close> as the function leaves it, and the log.
\<close>

definition device_calculate :: "string list \<Rightarrow> string list \<Rightarrow> raised + state" where
  "device_calculate f cl =
     (case process_lines f (initial_state cl) of
        Inl e \<Rightarrow> Inl e
      | Inr st \<Rightarrow>
          (let log1 = (if case_list st \<noteq> [] \<and> ''all'' \<notin> set (case_list st)
                       then logged st @ [Case_not_found (case_list st)] else logged st);
               tvd = any_override (testbed_vendor_dict st)
           in Inr \<lparr>testbed_vendor_dict = tvd, case_list = case_list st,
                   logged = log1 @ [Testbed_needed tvd]\<rparr>))"

subsection \<open>Notions used in the statements\<close>

text \<open>The log an outcome carries: the log of the final state, or the log written before
  the exception.\<close>

definition outcome_log :: "raised + state \<Rightarrow> log_entry list" where
  "outcome_log r = (case r of Inl (e, lg) \<Rightarrow> lg | Inr st \<Rightarrow> logged st)"

text \<open>The case identifier of a line of the file, if the line is a case record: the line
  is stripped, is no comment, and the first group of the match is the identifier.\<close>

definition case_id_of :: "string \<Rightarrow> string option" where
  "case_id_of line =
     (if re_match_comment (strip line) then None
      else map_option fst (re_match_case (strip line)))"

text \<open>The role-vendor lists and the per-case tallies that a log reports, in order.\<close>

fun reported_cases :: "log_entry list \<Rightarrow> string list list list" where
  "reported_cases [] = []"
| "reported_cases (Role_vendor_pair ps # es) = ps # reported_cases es"
| "reported_cases (_ # es) = reported_cases es"

fun reported_tallies :: "log_entry list \<Rightarrow> counter list" where
  "reported_tallies [] = []"
| "reported_tallies (Vendor_devices d # es) = d # reported_tallies es"
| "reported_tallies (_ # es) = reported_tallies es"

text \<open>The log without the entry on the cases that were not found.\<close>

fun case_reports :: "log_entry list \<Rightarrow> log_entry list" where
  "case_reports [] = []"
| "case_reports (Case_not_found _ # es) = case_reports es"
| "case_reports (e # es) = e # case_reports es"

text \<open>The number of pairs of a role-vendor list whose vendor is \<open>v\<close>.\<close>

definition vendor_count :: "string list list \<Rightarrow> string \<Rightarrow> int" where
  "vendor_count ps v = int (length (filter (\<lambda>p. length p = 2 \<and> p ! 1 = v) ps))"

text \<open>
  The override of \<open>Any\<close> as the specification words it, for comparison with
  \<open>any_override\<close>: \<open>count_any\<close> is \<open>MAX_VENDOR_DEVICE\<close> minus the counts of all vendors
  other than \<open>Any\<close>; after all subtractions, the count of \<open>Any\<close> is set once, if \<open>Any\<close> is
  a key.
\<close>

definition any_override_spec :: "counter \<Rightarrow> counter" where
  "any_override_spec tvd =
     (let count_any = MAX_VENDOR_DEVICE -
            sum_list (map snd (filter (\<lambda>(vendor, n). vendor \<noteq> ''Any'') tvd))
      in if counter_has tvd ''Any'' then counter_set tvd ''Any'' count_any else tvd)"

text \<open>The case identifiers whose header a log holds, and the lists of identifiers it
  reports as not found, in order.\<close>

fun reported_ids :: "log_entry list \<Rightarrow> string list" where
  "reported_ids [] = []"
| "reported_ids (Case_header g # es) = g # reported_ids es"
| "reported_ids (_ # es) = reported_ids es"

fun reported_not_found :: "log_entry list \<Rightarrow> string list list" where
  "reported_not_found [] = []"
| "reported_not_found (Case_not_found ids # es) = ids # reported_not_found es"
| "reported_not_found (_ # es) = reported_not_found es"

text \<open>The case identifiers of the case records of a file, in order, and the role-vendor
  list of a case record: its role-vendor string split at the commas, each token split at
  the colons.\<close>

definition record_ids :: "string list \<Rightarrow> string list" where
  "record_ids f = List.map_filter case_id_of f"

definition role_vendor_list_of :: "string \<Rightarrow> string list list" where
  "role_vendor_list_of line =
     (case re_match_case (strip line) of
        None \<Rightarrow> []
      | Some (case_id, role_vendor_str) \<Rightarrow>
          map (re_split CHR '':'') (re_split CHR '','' role_vendor_str))"

text \<open>
  The case records that an explicit selection selects, as the specification words it: a
  record whose identifier is not a member of the selection is skipped; otherwise the
  record is selected and its identifier is removed from the selection.
\<close>

fun selected_records :: "string list \<Rightarrow> string list \<Rightarrow> string list" where
  "selected_records [] sel = []"
| "selected_records (line # rest) sel =
     (case case_id_of line of
        None \<Rightarrow> selected_records rest sel
      | Some case_id \<Rightarrow>
          if case_id \<in> set sel then line # selected_records rest (remove1 case_id sel)
          else selected_records rest sel)"

section \<open>Properties\<close>

subsection \<open>Basic facts about the loop\<close>

text \<open>Without an empty line, which would end the loop, the loop over a concatenation is
  the loop over its first part followed by the loop over the second.\<close>

lemma process_lines_append:
  "[] \<notin> set pre \<Longrightarrow>
   process_lines (pre @ post) st =
     (case process_lines pre st of Inl e \<Rightarrow> Inl e | Inr st' \<Rightarrow> process_lines post st')"
  by (induction pre arbitrary: st) (auto split: sum.splits)

lemma process_line_comment: "re_match_comment line \<Longrightarrow> process_line line st = Inr st"
  by (simp add: process_line_def)

lemma re_match_case_no_dash: "CHR ''-'' \<notin> set line \<Longrightarrow> re_match_case line = None"
  by (auto simp: re_match_case_def Let_def dest: set_takeWhileD)

lemma process_line_no_dash:
  "\<not> re_match_comment line \<Longrightarrow> CHR ''-'' \<notin> set line \<Longrightarrow>
   process_line line st = Inl (AttributeError, logged st @ [Unrecognized_format line AttributeError])"
  by (simp add: process_line_def re_match_case_no_dash)

lemma strip_nonempty: "strip line \<noteq> [] \<Longrightarrow> line \<noteq> []"
  by (auto simp: strip_def)

lemma re_match_comment_nonempty: "re_match_comment line \<Longrightarrow> line \<noteq> []"
  by (auto simp: re_match_comment_def)

lemma process_lines_comments:
  "\<forall>l\<in>set f. re_match_comment (strip l) \<Longrightarrow> process_lines f st = Inr st"
  by (induction f) (auto simp: process_line_comment dest: re_match_comment_nonempty strip_nonempty)

lemma any_override_Nil: "any_override [] = []"
  by (simp add: any_override_def)

subsection \<open>Comment lines and blank lines\<close>

text \<open>
  A blank line is not skipped. Stripped, it is the empty string, which is no comment and
  which \<open>(.*)-(.*)\<close> does not match, so \<open>matched_case.group(1)\<close> raises: after any number
  of comment lines, the first blank line ends the run.
\<close>

lemma blank_line_raises:
  assumes "\<forall>l\<in>set pre. re_match_comment (strip l)" and "blank \<noteq> []" and "strip blank = []"
  shows "device_calculate (pre @ blank # post) cl =
           Inl (AttributeError, [Unrecognized_format [] AttributeError])"
proof -
  have "[] \<notin> set pre"
    using assms(1) re_match_comment_nonempty strip_nonempty by blast
  moreover have "process_line [] (initial_state cl) =
      Inl (AttributeError, [Unrecognized_format [] AttributeError])"
    by (simp add: process_line_def re_match_comment_def re_match_case_def initial_state_def)
  ultimately show ?thesis
    using assms by (simp add: device_calculate_def process_lines_append process_lines_comments)
qed

text \<open>
  Claim C2, as stated: a stream of comment lines and blank lines only, with the selection
  \<open>all\<close>, is processed without error, reports no case and gives the empty tally, every
  blank line being skipped. It fails on a comment line followed by a blank line: the run
  ends with \<open>AttributeError\<close>, reported as an unrecognized format.
\<close>

theorem C2_blank_line_counterexample:
  "re_match_comment (strip (''# topology'' @ [LF])) \<and> strip [LF] = [] \<and>
   device_calculate [''# topology'' @ [LF], [LF]] [''all''] =
     Inl (AttributeError, [Unrecognized_format [] AttributeError])"
  by code_simp

text \<open>
  Claim C2, amended: a stream of comment lines only, with a selection that holds \<open>all\<close>,
  is processed without error; no case is reported (the log holds the final tally only),
  the final tally is empty and the selection is left as it was.
\<close>

theorem C2_comment_only_stream:
  assumes "\<forall>l\<in>set f. re_match_comment (strip l)" and "''all'' \<in> set cl"
  shows "device_calculate f cl =
           Inr \<lparr>testbed_vendor_dict = [], case_list = cl, logged = [Testbed_needed []]\<rparr>"
  using assms
  by (simp add: device_calculate_def process_lines_comments initial_state_def any_override_Nil)

theorem C2_comment_only_stream_witness:
  "re_match_comment (strip (''# topology'' @ [LF])) \<and>
   re_match_comment (strip (''  # second comment'' @ [LF])) \<and>
   ''all'' \<in> set [''all''] \<and>
   device_calculate [''# topology'' @ [LF], ''  # second comment'' @ [LF]] [''all''] =
     Inr \<lparr>testbed_vendor_dict = [], case_list = [''all''], logged = [Testbed_needed []]\<rparr>"
proof -
  have h1: "re_match_comment (strip (''# topology'' @ [LF]))"
    and h2: "re_match_comment (strip (''  # second comment'' @ [LF]))"
    by (simp_all add: strip_def isspace_def LF_def re_match_comment_def)
  have h: "\<forall>l\<in>set [''# topology'' @ [LF], ''  # second comment'' @ [LF]]. re_match_comment (strip l)"
    using h1 h2 by simp
  have a: "''all'' \<in> set [''all'']" by simp
  show ?thesis
    by (intro conjI) (rule h1 h2 a C2_comment_only_stream [OF h a])+
qed

subsection \<open>A line without the separator\<close>

text \<open>
  Claim C4: a line that, stripped, is not blank, is no comment and holds no \<open>-\<close> makes the
  run end with a fatal error that names the line, and nothing after it is read. For a
  stream \<open>pre @ l # post\<close> (no line of \<open>pre\<close> being the empty string, which would end the
  loop before \<open>l\<close>): the run raises; its outcome is that of the stream cut after \<open>l\<close>, so
  no later line contributes; and when the lines before \<open>l\<close> raise nothing, the exception
  is the \<open>AttributeError\<close> of \<open>l\<close>, logged as an unrecognized format together with the
  stripped line, after the log of the lines before.
\<close>

theorem C4_malformed_line_aborts:
  assumes bad: "strip l \<noteq> []" "\<not> re_match_comment (strip l)" "CHR ''-'' \<notin> set (strip l)"
    and pre: "[] \<notin> set pre"
  shows "(\<exists>e. device_calculate (pre @ l # post) cl = Inl e) \<and>
         device_calculate (pre @ l # post) cl = device_calculate (pre @ [l]) cl \<and>
         (\<forall>st. process_lines pre (initial_state cl) = Inr st \<longrightarrow>
            device_calculate (pre @ l # post) cl =
              Inl (AttributeError, logged st @ [Unrecognized_format (strip l) AttributeError]))"
proof -
  have l: "l \<noteq> []" using bad(1) by (rule strip_nonempty)
  show ?thesis
  proof (cases "process_lines pre (initial_state cl)")
    case (Inl e)
    then have "process_lines (pre @ rest) (initial_state cl) = Inl e" for rest
      using pre by (simp add: process_lines_append)
    then have "device_calculate (pre @ rest) cl = Inl e" for rest
      by (simp add: device_calculate_def)
    then show ?thesis using Inl by simp
  next
    case (Inr st)
    then have "process_lines (pre @ l # rest) (initial_state cl) =
        Inl (AttributeError, logged st @ [Unrecognized_format (strip l) AttributeError])" for rest
      using pre l bad by (simp add: process_lines_append process_line_no_dash)
    then have "device_calculate (pre @ l # rest) cl =
        Inl (AttributeError, logged st @ [Unrecognized_format (strip l) AttributeError])" for rest
      by (simp add: device_calculate_def)
    then show ?thesis using Inr by simp
  qed
qed

theorem C4_malformed_line_aborts_witness:
  "strip (''5.2.1 Leader:ARM'' @ [LF]) \<noteq> [] \<and>
   \<not> re_match_comment (strip (''5.2.1 Leader:ARM'' @ [LF])) \<and>
   CHR ''-'' \<notin> set (strip (''5.2.1 Leader:ARM'' @ [LF])) \<and>
   [] \<notin> set [''5.1.1-Leader:ARM,Router_1:ARM'' @ [LF]] \<and>
   device_calculate
     ([''5.1.1-Leader:ARM,Router_1:ARM'' @ [LF]] @ (''5.2.1 Leader:ARM'' @ [LF]) #
      [''5.3.1-Leader:Kirale'' @ [LF]]) [''all''] =
     Inl (AttributeError,
          [Case_header ''5.1.1'',
           Role_vendor_pair [[''Leader'', ''ARM''], [''Router_1'', ''ARM'']],
           Vendor_devices [(''ARM'', 2)],
           Unrecognized_format ''5.2.1 Leader:ARM'' AttributeError])"
proof -
  have s: "strip (''5.2.1 Leader:ARM'' @ [LF]) = ''5.2.1 Leader:ARM''"
    by (simp add: strip_def isspace_def LF_def)
  have h1: "strip (''5.2.1 Leader:ARM'' @ [LF]) \<noteq> []"
    and h2: "\<not> re_match_comment (strip (''5.2.1 Leader:ARM'' @ [LF]))"
    and h3: "CHR ''-'' \<notin> set (strip (''5.2.1 Leader:ARM'' @ [LF]))"
    unfolding s by (simp_all add: re_match_comment_def isspace_def)
  have h4: "[] \<notin> set [''5.1.1-Leader:ARM,Router_1:ARM'' @ [LF]]" by simp
  have p: "process_lines [''5.1.1-Leader:ARM,Router_1:ARM'' @ [LF]] (initial_state [''all'']) =
      Inr \<lparr>testbed_vendor_dict = [(''ARM'', 2)], case_list = [''all''],
           logged = [Case_header ''5.1.1'',
                     Role_vendor_pair [[''Leader'', ''ARM''], [''Router_1'', ''ARM'']],
                     Vendor_devices [(''ARM'', 2)]]\<rparr>"
    by code_simp
  have q: "device_calculate
     ([''5.1.1-Leader:ARM,Router_1:ARM'' @ [LF]] @ (''5.2.1 Leader:ARM'' @ [LF]) #
      [''5.3.1-Leader:Kirale'' @ [LF]]) [''all''] =
     Inl (AttributeError,
          logged \<lparr>testbed_vendor_dict = [(''ARM'', 2)], case_list = [''all''],
                  logged = [Case_header ''5.1.1'',
                     Role_vendor_pair [[''Leader'', ''ARM''], [''Router_1'', ''ARM'']],
                     Vendor_devices [(''ARM'', 2)]]\<rparr> @
          [Unrecognized_format (strip (''5.2.1 Leader:ARM'' @ [LF])) AttributeError])"
    using p
      C4_malformed_line_aborts [OF h1 h2 h3 h4, of "[''5.3.1-Leader:Kirale'' @ [LF]]" "[''all'']"]
    by blast
  have r: "device_calculate
     ([''5.1.1-Leader:ARM,Router_1:ARM'' @ [LF]] @ (''5.2.1 Leader:ARM'' @ [LF]) #
      [''5.3.1-Leader:Kirale'' @ [LF]]) [''all''] =
     Inl (AttributeError,
          [Case_header ''5.1.1'',
           Role_vendor_pair [[''Leader'', ''ARM''], [''Router_1'', ''ARM'']],
           Vendor_devices [(''ARM'', 2)],
           Unrecognized_format ''5.2.1 Leader:ARM'' AttributeError])"
    unfolding q s by simp
  show ?thesis
    by (intro conjI) (rule h1 h2 h3 h4 r)+
qed

subsection \<open>The example of the documentation\<close>

text \<open>
  Claim C8: for the lines \<open>5.1.1-Leader:ARM,Router_1:ARM\<close> and
  \<open>5.2.1-Leader:OpenThread,REED_1:Kirale,MED_1:SiLabs\<close> and the selection \<open>all\<close>, the
  tallies reported for the two cases are \<open>{ARM: 2}\<close> and
  \<open>{OpenThread: 1, Kirale: 1, SiLabs: 1}\<close>, and the final tally of the test bed is
  \<open>{ARM: 2, OpenThread: 1, Kirale: 1, SiLabs: 1}\<close>.
\<close>

theorem C8_end_to_end_example:
  "device_calculate
     [''5.1.1-Leader:ARM,Router_1:ARM'' @ [LF],
      ''5.2.1-Leader:OpenThread,REED_1:Kirale,MED_1:SiLabs'' @ [LF]] [''all''] =
   Inr \<lparr>testbed_vendor_dict =
          [(''ARM'', 2), (''OpenThread'', 1), (''Kirale'', 1), (''SiLabs'', 1)],
        case_list = [''all''],
        logged =
          [Case_header ''5.1.1'',
           Role_vendor_pair [[''Leader'', ''ARM''], [''Router_1'', ''ARM'']],
           Vendor_devices [(''ARM'', 2)],
           Case_header ''5.2.1'',
           Role_vendor_pair
             [[''Leader'', ''OpenThread''], [''REED_1'', ''Kirale''], [''MED_1'', ''SiLabs'']],
           Vendor_devices [(''OpenThread'', 1), (''Kirale'', 1), (''SiLabs'', 1)],
           Testbed_needed
             [(''ARM'', 2), (''OpenThread'', 1), (''Kirale'', 1), (''SiLabs'', 1)]]\<rparr>"
  by code_simp

subsection \<open>Counters and the tally of one case\<close>

lemma counter_get_set:
  "counter_get (counter_set d k v) k' = (if k' = k then v else counter_get d k')"
  by (simp add: counter_get_def counter_set_def update_conv')

lemma counter_has_set:
  "counter_has (counter_set d k v) k' \<longleftrightarrow> k' = k \<or> counter_has d k'"
  by (auto simp: counter_has_def counter_set_def dom_update)

lemma keys_counter_set:
  "counter_has d k \<Longrightarrow> map fst (counter_set d k v) = map fst d"
  by (simp add: counter_has_def counter_set_def update_keys)

lemma distinct_counter_set:
  "distinct (map fst d) \<Longrightarrow> distinct (map fst (counter_set d k v))"
  by (simp add: counter_set_def distinct_update)

lemma counter_set_twice: "counter_set (counter_set d k v') k v = counter_set d k v"
  by (simp add: counter_set_def)

lemma vendor_count_Nil: "vendor_count [] v = 0"
  by (simp add: vendor_count_def)

lemma vendor_count_Cons:
  "vendor_count (p # ps) v = (if length p = 2 \<and> p ! 1 = v then 1 else 0) + vendor_count ps v"
  by (simp add: vendor_count_def)

lemma vendor_count_nonneg: "0 \<le> vendor_count ps v"
  by (simp add: vendor_count_def)

lemma tally_pairs_counts:
  "tally_pairs ps (cvd, tvd) = Inr (cvd', tvd') \<Longrightarrow>
   counter_get cvd' v = counter_get cvd v + vendor_count ps v \<and>
   counter_get tvd' v =
     (if vendor_count ps v = 0 then counter_get tvd v
      else max (counter_get tvd v) (counter_get cvd v + vendor_count ps v))"
proof (induction ps arbitrary: cvd tvd)
  case Nil
  then show ?case by (simp add: vendor_count_Nil)
next
  case (Cons p ps)
  from Cons.prems obtain role vendor where p: "p = [role, vendor]"
    by (auto split: list.splits)
  let ?cvd = "counter_set cvd vendor (counter_get cvd vendor + 1)"
  let ?tvd = "counter_set tvd vendor (max (counter_get tvd vendor) (counter_get ?cvd vendor))"
  from Cons.prems p have "tally_pairs ps (?cvd, ?tvd) = Inr (cvd', tvd')"
    by (simp add: Let_def)
  from Cons.IH [OF this] show ?case
    using vendor_count_nonneg [of ps v]
    by (auto simp: p vendor_count_Cons counter_get_set)
qed

lemma tally_pairs_keys:
  "tally_pairs ps (cvd, tvd) = Inr (cvd', tvd') \<Longrightarrow>
   (distinct (map fst tvd) \<longrightarrow> distinct (map fst tvd')) \<and>
   (counter_has tvd v \<longrightarrow> counter_has tvd' v)"
proof (induction ps arbitrary: cvd tvd)
  case Nil
  then show ?case by simp
next
  case (Cons p ps)
  from Cons.prems obtain role vendor where p: "p = [role, vendor]"
    by (auto split: list.splits)
  let ?cvd = "counter_set cvd vendor (counter_get cvd vendor + 1)"
  let ?tvd = "counter_set tvd vendor (max (counter_get tvd vendor) (counter_get ?cvd vendor))"
  from Cons.prems p have "tally_pairs ps (?cvd, ?tvd) = Inr (cvd', tvd')"
    by (simp add: Let_def)
  from Cons.IH [OF this] show ?case
    by (auto simp: distinct_counter_set counter_has_set)
qed


lemma process_line_Inr:
  assumes "process_line line st = Inr st'"
  shows "st' = st \<or>
    (\<exists>g1 g2 cvd. \<not> re_match_comment line \<and> re_match_case line = Some (g1, g2) \<and>
       (''all'' \<in> set (case_list st) \<or> g1 \<in> set (case_list st)) \<and>
       case_list st' =
         (if ''all'' \<notin> set (case_list st) then remove1 g1 (case_list st) else case_list st) \<and>
       tally_pairs (map (re_split CHR '':'') (re_split CHR '','' g2)) ([], testbed_vendor_dict st) =
         Inr (cvd, testbed_vendor_dict st') \<and>
       logged st' = logged st @
         [Case_header g1, Role_vendor_pair (map (re_split CHR '':'') (re_split CHR '','' g2)),
          Vendor_devices cvd])"
  using assms unfolding process_line_def list_remove_def Let_def
  by (auto split: if_splits option.splits sum.splits prod.splits)

lemma reported_cases_append:
  "reported_cases (a @ b) = reported_cases a @ reported_cases b"
  by (induction a rule: reported_cases.induct) auto

lemma reported_tallies_append:
  "reported_tallies (a @ b) = reported_tallies a @ reported_tallies b"
  by (induction a rule: reported_tallies.induct) auto

lemma counter_get_Nil: "counter_get [] v = 0"
  by (simp add: counter_get_def)

lemma process_line_fold:
  assumes "process_line line st = Inr st'" and "\<forall>u. 0 \<le> counter_get (testbed_vendor_dict st) u"
  shows "\<exists>new tal. reported_cases (logged st') = reported_cases (logged st) @ new \<and>
      reported_tallies (logged st') = reported_tallies (logged st) @ tal \<and>
      (\<forall>v. map (\<lambda>d. counter_get d v) tal = map (\<lambda>ps. vendor_count ps v) new) \<and>
      (\<forall>v. counter_get (testbed_vendor_dict st') v =
         fold max (map (\<lambda>ps. vendor_count ps v) new) (counter_get (testbed_vendor_dict st) v))"
proof -
  from process_line_Inr [OF assms(1)] show ?thesis
  proof
    assume "st' = st"
    then have "reported_cases (logged st') = reported_cases (logged st) @ [] \<and>
      reported_tallies (logged st') = reported_tallies (logged st) @ [] \<and>
      (\<forall>v. map (\<lambda>d. counter_get d v) [] = map (\<lambda>ps. vendor_count ps v) []) \<and>
      (\<forall>v. counter_get (testbed_vendor_dict st') v =
         fold max (map (\<lambda>ps. vendor_count ps v) []) (counter_get (testbed_vendor_dict st) v))"
      by simp
    then show ?thesis by blast
  next
    assume "\<exists>g1 g2 cvd. \<not> re_match_comment line \<and> re_match_case line = Some (g1, g2) \<and>
       (''all'' \<in> set (case_list st) \<or> g1 \<in> set (case_list st)) \<and>
       case_list st' =
         (if ''all'' \<notin> set (case_list st) then remove1 g1 (case_list st) else case_list st) \<and>
       tally_pairs (map (re_split CHR '':'') (re_split CHR '','' g2)) ([], testbed_vendor_dict st) =
         Inr (cvd, testbed_vendor_dict st') \<and>
       logged st' = logged st @
         [Case_header g1, Role_vendor_pair (map (re_split CHR '':'') (re_split CHR '','' g2)),
          Vendor_devices cvd]"
    then obtain g1 g2 cvd where
      t: "tally_pairs (map (re_split CHR '':'') (re_split CHR '','' g2)) ([], testbed_vendor_dict st) =
         Inr (cvd, testbed_vendor_dict st')"
      and lg: "logged st' = logged st @
         [Case_header g1, Role_vendor_pair (map (re_split CHR '':'') (re_split CHR '','' g2)),
          Vendor_devices cvd]"
      by blast
    let ?ps = "map (re_split CHR '':'') (re_split CHR '','' g2)"
    have c: "counter_get cvd v = vendor_count ?ps v" for v
      using tally_pairs_counts [OF t, of v] by (simp add: counter_get_Nil)
    have m: "counter_get (testbed_vendor_dict st') v =
        max (vendor_count ?ps v) (counter_get (testbed_vendor_dict st) v)" for v
      using tally_pairs_counts [OF t, of v] assms(2) vendor_count_nonneg [of ?ps v]
      by (auto simp: counter_get_Nil max_def dest: spec [of _ v])
    have "reported_cases (logged st') = reported_cases (logged st) @ [?ps] \<and>
      reported_tallies (logged st') = reported_tallies (logged st) @ [cvd] \<and>
      (\<forall>v. map (\<lambda>d. counter_get d v) [cvd] = map (\<lambda>ps. vendor_count ps v) [?ps]) \<and>
      (\<forall>v. counter_get (testbed_vendor_dict st') v =
         fold max (map (\<lambda>ps. vendor_count ps v) [?ps]) (counter_get (testbed_vendor_dict st) v))"
      by (simp add: lg reported_cases_append reported_tallies_append c m)
    then show ?thesis by blast
  qed
qed


lemma fold_max_ge: "(a::int) \<le> fold max xs a"
proof (induction xs arbitrary: a)
  case Nil
  show ?case by simp
next
  case (Cons x xs)
  have "a \<le> max x a" by simp
  also have "\<dots> \<le> fold max xs (max x a)" by (rule Cons.IH)
  finally show ?case by simp
qed

lemma process_lines_fold:
  assumes "process_lines f st = Inr st'" and "\<forall>u. 0 \<le> counter_get (testbed_vendor_dict st) u"
  shows "\<exists>new tal. reported_cases (logged st') = reported_cases (logged st) @ new \<and>
      reported_tallies (logged st') = reported_tallies (logged st) @ tal \<and>
      (\<forall>v. map (\<lambda>d. counter_get d v) tal = map (\<lambda>ps. vendor_count ps v) new) \<and>
      (\<forall>v. counter_get (testbed_vendor_dict st') v =
         fold max (map (\<lambda>ps. vendor_count ps v) new) (counter_get (testbed_vendor_dict st) v))"
  using assms
proof (induction f arbitrary: st)
  case Nil
  then have "reported_cases (logged st') = reported_cases (logged st) @ [] \<and>
      reported_tallies (logged st') = reported_tallies (logged st) @ [] \<and>
      (\<forall>v. map (\<lambda>d. counter_get d v) [] = map (\<lambda>ps. vendor_count ps v) []) \<and>
      (\<forall>v. counter_get (testbed_vendor_dict st') v =
         fold max (map (\<lambda>ps. vendor_count ps v) []) (counter_get (testbed_vendor_dict st) v))"
    by simp
  then show ?case by blast
next
  case (Cons line rest)
  show ?case
  proof (cases "line = []")
    case True
    with Cons.prems have "reported_cases (logged st') = reported_cases (logged st) @ [] \<and>
      reported_tallies (logged st') = reported_tallies (logged st) @ [] \<and>
      (\<forall>v. map (\<lambda>d. counter_get d v) [] = map (\<lambda>ps. vendor_count ps v) []) \<and>
      (\<forall>v. counter_get (testbed_vendor_dict st') v =
         fold max (map (\<lambda>ps. vendor_count ps v) []) (counter_get (testbed_vendor_dict st) v))"
      by simp
    then show ?thesis by blast
  next
    case False
    with Cons.prems(1) obtain st1 where
      one: "process_line (strip line) st = Inr st1" and more: "process_lines rest st1 = Inr st'"
      by (auto split: sum.splits)
    from process_line_fold [OF one Cons.prems(2)] obtain new1 tal1 where
      a1: "reported_cases (logged st1) = reported_cases (logged st) @ new1"
      and a2: "reported_tallies (logged st1) = reported_tallies (logged st) @ tal1"
      and a3: "\<And>v. map (\<lambda>d. counter_get d v) tal1 = map (\<lambda>ps. vendor_count ps v) new1"
      and a4: "\<And>v. counter_get (testbed_vendor_dict st1) v =
         fold max (map (\<lambda>ps. vendor_count ps v) new1) (counter_get (testbed_vendor_dict st) v)"
      by blast
    have nn: "\<forall>u. 0 \<le> counter_get (testbed_vendor_dict st1) u"
    proof
      fix u
      have "0 \<le> counter_get (testbed_vendor_dict st) u" using Cons.prems(2) by simp
      also have "\<dots> \<le> counter_get (testbed_vendor_dict st1) u"
        unfolding a4 by (rule fold_max_ge)
      finally show "0 \<le> counter_get (testbed_vendor_dict st1) u" .
    qed
    from Cons.IH [OF more nn] obtain new2 tal2 where
      b1: "reported_cases (logged st') = reported_cases (logged st1) @ new2"
      and b2: "reported_tallies (logged st') = reported_tallies (logged st1) @ tal2"
      and b3: "\<And>v. map (\<lambda>d. counter_get d v) tal2 = map (\<lambda>ps. vendor_count ps v) new2"
      and b4: "\<And>v. counter_get (testbed_vendor_dict st') v =
         fold max (map (\<lambda>ps. vendor_count ps v) new2) (counter_get (testbed_vendor_dict st1) v)"
      by blast
    have "reported_cases (logged st') = reported_cases (logged st) @ (new1 @ new2) \<and>
      reported_tallies (logged st') = reported_tallies (logged st) @ (tal1 @ tal2) \<and>
      (\<forall>v. map (\<lambda>d. counter_get d v) (tal1 @ tal2) = map (\<lambda>ps. vendor_count ps v) (new1 @ new2)) \<and>
      (\<forall>v. counter_get (testbed_vendor_dict st') v =
         fold max (map (\<lambda>ps. vendor_count ps v) (new1 @ new2)) (counter_get (testbed_vendor_dict st) v))"
      by (simp add: a1 a2 a3 a4 b1 b2 b3 b4)
    then show ?thesis by blast
  qed
qed

subsection \<open>The test-bed tally is the maximum of the case tallies\<close>

text \<open>
  Claim C5: before the override of \<open>Any\<close>, the test-bed tally of every vendor \<open>v\<close> is the
  maximum, over the cases processed, of the number of pairs of the case whose vendor is
  \<open>v\<close>, and 0 when there is none. The cases processed are those whose role-vendor list
  the log reports; the tally reported for each case gives, for \<open>v\<close>, that number of pairs.
\<close>

theorem C5_per_vendor_max:
  assumes "process_lines f (initial_state cl) = Inr st"
  shows "counter_get (testbed_vendor_dict st) v =
           Max (set (0 # map (\<lambda>ps. vendor_count ps v) (reported_cases (logged st)))) \<and>
         map (\<lambda>d. counter_get d v) (reported_tallies (logged st)) =
           map (\<lambda>ps. vendor_count ps v) (reported_cases (logged st))"
proof -
  have "\<forall>u. 0 \<le> counter_get (testbed_vendor_dict (initial_state cl)) u"
    by (simp add: initial_state_def counter_get_Nil)
  from process_lines_fold [OF assms this] obtain new tal where
    a1: "reported_cases (logged st) = new" and a2: "reported_tallies (logged st) = tal"
    and a3: "map (\<lambda>d. counter_get d v) tal = map (\<lambda>ps. vendor_count ps v) new"
    and a4: "counter_get (testbed_vendor_dict st) v =
               fold max (map (\<lambda>ps. vendor_count ps v) new) 0"
    by (auto simp: initial_state_def counter_get_Nil)
  show ?thesis
    unfolding a1 a2 Max.set_eq_fold using a3 a4 by simp
qed


theorem C5_per_vendor_max_witness:
  "process_lines
     [''5.1.1-Leader:V,Router_1:V'' @ [LF],
      ''5.2.1-Leader:V,Router_1:V,Router_2:V,SED_1:V,MED_1:V'' @ [LF]] (initial_state [''all'']) =
   Inr \<lparr>testbed_vendor_dict = [(''V'', 5)], case_list = [''all''],
        logged =
          [Case_header ''5.1.1'',
           Role_vendor_pair [[''Leader'', ''V''], [''Router_1'', ''V'']],
           Vendor_devices [(''V'', 2)],
           Case_header ''5.2.1'',
           Role_vendor_pair [[''Leader'', ''V''], [''Router_1'', ''V''], [''Router_2'', ''V''],
                             [''SED_1'', ''V''], [''MED_1'', ''V'']],
           Vendor_devices [(''V'', 5)]]\<rparr> \<and>
   Max (set (0 # map (\<lambda>ps. vendor_count ps ''V'')
        [[[''Leader'', ''V''], [''Router_1'', ''V'']],
         [[''Leader'', ''V''], [''Router_1'', ''V''], [''Router_2'', ''V''],
          [''SED_1'', ''V''], [''MED_1'', ''V'']]])) = 5"
proof -
  have h: "process_lines
     [''5.1.1-Leader:V,Router_1:V'' @ [LF],
      ''5.2.1-Leader:V,Router_1:V,Router_2:V,SED_1:V,MED_1:V'' @ [LF]] (initial_state [''all'']) =
   Inr \<lparr>testbed_vendor_dict = [(''V'', 5)], case_list = [''all''],
        logged =
          [Case_header ''5.1.1'',
           Role_vendor_pair [[''Leader'', ''V''], [''Router_1'', ''V'']],
           Vendor_devices [(''V'', 2)],
           Case_header ''5.2.1'',
           Role_vendor_pair [[''Leader'', ''V''], [''Router_1'', ''V''], [''Router_2'', ''V''],
                             [''SED_1'', ''V''], [''MED_1'', ''V'']],
           Vendor_devices [(''V'', 5)]]\<rparr>"
    by code_simp
  have g: "counter_get [(''V'', 5)] ''V'' = 5"
    by (simp add: counter_get_def)
  have m: "Max (set (0 # map (\<lambda>ps. vendor_count ps ''V'')
        [[[''Leader'', ''V''], [''Router_1'', ''V'']],
         [[''Leader'', ''V''], [''Router_1'', ''V''], [''Router_2'', ''V''],
          [''SED_1'', ''V''], [''MED_1'', ''V'']]])) = 5"
    using C5_per_vendor_max [OF h, of "''V''"] g by (simp add: vendor_count_def)
  show ?thesis
    by (intro conjI) (rule h m)+
qed

subsection \<open>The test-bed tally never decreases\<close>

lemma process_line_mono:
  assumes "process_line line st = Inr st'"
  shows "counter_get (testbed_vendor_dict st) v \<le> counter_get (testbed_vendor_dict st') v \<and>
         (counter_has (testbed_vendor_dict st) v \<longrightarrow> counter_has (testbed_vendor_dict st') v) \<and>
         (distinct (map fst (testbed_vendor_dict st)) \<longrightarrow>
            distinct (map fst (testbed_vendor_dict st')))"
  using process_line_Inr [OF assms]
proof
  assume "st' = st"
  then show ?thesis by simp
next
  assume "\<exists>g1 g2 cvd. \<not> re_match_comment line \<and> re_match_case line = Some (g1, g2) \<and>
       (''all'' \<in> set (case_list st) \<or> g1 \<in> set (case_list st)) \<and>
       case_list st' =
         (if ''all'' \<notin> set (case_list st) then remove1 g1 (case_list st) else case_list st) \<and>
       tally_pairs (map (re_split CHR '':'') (re_split CHR '','' g2)) ([], testbed_vendor_dict st) =
         Inr (cvd, testbed_vendor_dict st') \<and>
       logged st' = logged st @
         [Case_header g1, Role_vendor_pair (map (re_split CHR '':'') (re_split CHR '','' g2)),
          Vendor_devices cvd]"
  then obtain g2 cvd where
    t: "tally_pairs (map (re_split CHR '':'') (re_split CHR '','' g2)) ([], testbed_vendor_dict st) =
         Inr (cvd, testbed_vendor_dict st')"
    by blast
  show ?thesis
    using tally_pairs_counts [OF t, of v] tally_pairs_keys [OF t, of v]
    by (auto simp: max_def)
qed

lemma process_lines_mono:
  assumes "process_lines f st = Inr st'"
  shows "counter_get (testbed_vendor_dict st) v \<le> counter_get (testbed_vendor_dict st') v \<and>
         (counter_has (testbed_vendor_dict st) v \<longrightarrow> counter_has (testbed_vendor_dict st') v) \<and>
         (distinct (map fst (testbed_vendor_dict st)) \<longrightarrow>
            distinct (map fst (testbed_vendor_dict st')))"
  using assms
proof (induction f arbitrary: st)
  case Nil
  then show ?case by simp
next
  case (Cons line rest)
  show ?case
  proof (cases "line = []")
    case True
    with Cons.prems show ?thesis by simp
  next
    case False
    with Cons.prems obtain st1 where
      one: "process_line (strip line) st = Inr st1" and more: "process_lines rest st1 = Inr st'"
      by (auto split: sum.splits)
    from process_line_mono [OF one, of v] Cons.IH [OF more] show ?thesis
      by auto
  qed
qed

lemma process_lines_prefix:
  assumes "process_lines pre st0 = Inr st" and "process_lines (pre @ later) st0 = Inr st'"
  shows "st' = st \<or> process_lines later st = Inr st'"
  using assms
proof (induction pre arbitrary: st0)
  case Nil
  then show ?case by simp
next
  case (Cons line rest)
  show ?case
  proof (cases "line = []")
    case True
    with Cons.prems show ?thesis by simp
  next
    case False
    with Cons.prems(1) obtain st1 where
      one: "process_line (strip line) st0 = Inr st1" and r: "process_lines rest st1 = Inr st"
      by (auto split: sum.splits)
    from Cons.prems(2) False one have "process_lines (rest @ later) st1 = Inr st'"
      by simp
    from Cons.IH [OF r this] show ?thesis .
  qed
qed

text \<open>
  Claim C9: while the cases are folded in, the test-bed tally of a vendor never decreases.
  If the loop over the lines \<open>pre\<close> ends in the state \<open>st\<close> and the loop over \<open>pre\<close>
  followed by further lines ends in \<open>st'\<close>, then for every vendor the tally in \<open>st'\<close> is
  at least the tally in \<open>st\<close>, and a vendor that is a key in \<open>st\<close> is a key in \<open>st'\<close>.
\<close>

theorem C9_monotone:
  assumes "process_lines pre (initial_state cl) = Inr st"
    and "process_lines (pre @ later) (initial_state cl) = Inr st'"
  shows "counter_get (testbed_vendor_dict st) v \<le> counter_get (testbed_vendor_dict st') v \<and>
         (counter_has (testbed_vendor_dict st) v \<longrightarrow> counter_has (testbed_vendor_dict st') v)"
  using process_lines_prefix [OF assms] process_lines_mono [of later st st' v] by auto

theorem C9_monotone_witness:
  "process_lines [''5.1.1-Leader:V,Router_1:V'' @ [LF]] (initial_state [''all'']) =
     Inr \<lparr>testbed_vendor_dict = [(''V'', 2)], case_list = [''all''],
          logged = [Case_header ''5.1.1'',
                    Role_vendor_pair [[''Leader'', ''V''], [''Router_1'', ''V'']],
                    Vendor_devices [(''V'', 2)]]\<rparr> \<and>
   process_lines ([''5.1.1-Leader:V,Router_1:V'' @ [LF]] @ [''5.2.1-Leader:V'' @ [LF]])
       (initial_state [''all'']) =
     Inr \<lparr>testbed_vendor_dict = [(''V'', 2)], case_list = [''all''],
          logged = [Case_header ''5.1.1'',
                    Role_vendor_pair [[''Leader'', ''V''], [''Router_1'', ''V'']],
                    Vendor_devices [(''V'', 2)],
                    Case_header ''5.2.1'',
                    Role_vendor_pair [[''Leader'', ''V'']],
                    Vendor_devices [(''V'', 1)]]\<rparr> \<and>
   counter_get [(''V'', 2)] ''V'' \<le> counter_get [(''V'', 2)] ''V'' \<and>
   counter_has [(''V'', 2)] ''V''"
proof -
  have h1: "process_lines [''5.1.1-Leader:V,Router_1:V'' @ [LF]] (initial_state [''all'']) =
     Inr \<lparr>testbed_vendor_dict = [(''V'', 2)], case_list = [''all''],
          logged = [Case_header ''5.1.1'',
                    Role_vendor_pair [[''Leader'', ''V''], [''Router_1'', ''V'']],
                    Vendor_devices [(''V'', 2)]]\<rparr>"
    by code_simp
  have h2: "process_lines ([''5.1.1-Leader:V,Router_1:V'' @ [LF]] @ [''5.2.1-Leader:V'' @ [LF]])
       (initial_state [''all'']) =
     Inr \<lparr>testbed_vendor_dict = [(''V'', 2)], case_list = [''all''],
          logged = [Case_header ''5.1.1'',
                    Role_vendor_pair [[''Leader'', ''V''], [''Router_1'', ''V'']],
                    Vendor_devices [(''V'', 2)],
                    Case_header ''5.2.1'',
                    Role_vendor_pair [[''Leader'', ''V'']],
                    Vendor_devices [(''V'', 1)]]\<rparr>"
    by code_simp
  have c: "counter_has [(''V'', 2)] ''V''"
    by (simp add: counter_has_def)
  have m: "counter_get [(''V'', 2)] ''V'' \<le> counter_get [(''V'', 2)] ''V''"
    using C9_monotone [OF h1 h2, of "''V''"] by simp
  show ?thesis
    by (intro conjI) (rule h1 h2 m c)+
qed

subsection \<open>The override of \<open>Any\<close>\<close>

text \<open>
  The loop of lines 135 to 139 stores the count of \<open>Any\<close> in every iteration, with the
  value \<open>count_any\<close> has at that moment. Nothing reads the stored value before the loop
  ends, and the last store is made after the last subtraction: the dictionary after the
  loop is the one with the single store of the fully reduced \<open>count_any\<close>.
\<close>

lemma any_loop_result:
  "any_loop keys (count_any, tvd) =
     (count_any - sum_list (map (counter_get tvd) (filter (\<lambda>k. k \<noteq> ''Any'') keys)),
      if keys = [] \<or> \<not> counter_has tvd ''Any'' then tvd
      else counter_set tvd ''Any''
             (count_any - sum_list (map (counter_get tvd) (filter (\<lambda>k. k \<noteq> ''Any'') keys))))"
proof (induction keys arbitrary: count_any tvd)
  case Nil
  show ?case by simp
next
  case (Cons key keys)
  have same: "map (counter_get (counter_set tvd ''Any'' c)) (filter (\<lambda>k. k \<noteq> ''Any'') keys) =
      map (counter_get tvd) (filter (\<lambda>k. k \<noteq> ''Any'') keys)" for c
    by (rule map_cong) (auto simp: counter_get_set)
  show ?case
    by (simp add: Cons.IH Let_def same counter_has_set counter_set_twice diff_diff_eq)
qed

lemma counter_get_distinct:
  "distinct (map fst d) \<Longrightarrow> (k, n) \<in> set d \<Longrightarrow> counter_get d k = n"
  by (simp add: counter_get_def)

lemma sum_other_vendors:
  assumes "distinct (map fst d)"
  shows "sum_list (map (counter_get d) (filter (\<lambda>k. k \<noteq> ''Any'') (map fst d))) =
         sum_list (map snd (filter (\<lambda>(vendor, n). vendor \<noteq> ''Any'') d))"
proof -
  have "map (counter_get d) (filter (\<lambda>k. k \<noteq> ''Any'') (map fst d)) =
        map (counter_get d \<circ> fst) (filter (\<lambda>(vendor, n). vendor \<noteq> ''Any'') d)"
    by (simp add: filter_map comp_def case_prod_unfold)
  also have "\<dots> = map snd (filter (\<lambda>(vendor, n). vendor \<noteq> ''Any'') d)"
    by (rule map_cong) (auto simp: counter_get_distinct [OF assms])
  finally show ?thesis by simp
qed

lemma any_override_refines:
  assumes "distinct (map fst tvd)"
  shows "any_override tvd = any_override_spec tvd"
proof -
  have "counter_has tvd ''Any'' \<Longrightarrow> map fst tvd \<noteq> []"
    by (auto simp: counter_has_def)
  then show ?thesis
    by (auto simp: any_override_def any_override_spec_def any_loop_result Let_def
        sum_other_vendors [OF assms])
qed

lemma any_override_spec_get:
  "counter_get (any_override_spec tvd) v =
     (if v = ''Any'' \<and> counter_has tvd ''Any''
      then MAX_VENDOR_DEVICE - sum_list (map snd (filter (\<lambda>(vendor, n). vendor \<noteq> ''Any'') tvd))
      else counter_get tvd v)"
  by (simp add: any_override_spec_def Let_def counter_get_set)

lemma any_override_spec_keys: "map fst (any_override_spec tvd) = map fst tvd"
  by (simp add: any_override_spec_def Let_def keys_counter_set)

lemma reachable_distinct:
  "process_lines f (initial_state cl) = Inr st \<Longrightarrow> distinct (map fst (testbed_vendor_dict st))"
  using process_lines_mono [of f "initial_state cl" st] by (simp add: initial_state_def)


text \<open>A total over \<open>MAX_VENDOR_DEVICE\<close> gives a negative count for \<open>Any\<close>, stored as
  it is.\<close>

lemma any_override_negative_example:
  "any_override [(''X'', 33), (''Any'', 1), (''Y'', 1)] = [(''X'', 33), (''Any'', - 2), (''Y'', 1)]"
  by (simp add: any_override_def counter_get_def counter_set_def counter_has_def
      MAX_VENDOR_DEVICE_def)

text \<open>
  Claim C3: after the stream is exhausted, the final tally is the tally of the loop with
  the count of \<open>Any\<close> overridden as specified: if and only if \<open>Any\<close> is a key, its count
  becomes \<open>MAX_VENDOR_DEVICE = 32\<close> minus the sum of the counts of all other vendors (an
  integer, negative when the sum exceeds 32); the keys, their order and the counts of all
  other vendors are left as they were.
\<close>

theorem C3_any_override:
  assumes "process_lines f (initial_state cl) = Inr st"
  shows "\<exists>r. device_calculate f cl = Inr r \<and>
           testbed_vendor_dict r = any_override_spec (testbed_vendor_dict st) \<and>
           map fst (testbed_vendor_dict r) = map fst (testbed_vendor_dict st) \<and>
           (\<forall>v. v \<noteq> ''Any'' \<longrightarrow>
              counter_get (testbed_vendor_dict r) v = counter_get (testbed_vendor_dict st) v) \<and>
           (counter_has (testbed_vendor_dict st) ''Any'' \<longrightarrow>
              counter_get (testbed_vendor_dict r) ''Any'' =
                32 - sum_list (map snd (filter (\<lambda>(vendor, n). vendor \<noteq> ''Any'')
                                          (testbed_vendor_dict st)))) \<and>
           (\<not> counter_has (testbed_vendor_dict st) ''Any'' \<longrightarrow>
              testbed_vendor_dict r = testbed_vendor_dict st)"
proof -
  have eq: "any_override (testbed_vendor_dict st) = any_override_spec (testbed_vendor_dict st)"
    by (rule any_override_refines) (rule reachable_distinct [OF assms])
  have un: "\<not> counter_has (testbed_vendor_dict st) ''Any'' \<Longrightarrow>
      any_override_spec (testbed_vendor_dict st) = testbed_vendor_dict st"
    by (simp add: any_override_spec_def)
  show ?thesis
    using un
    by (simp add: device_calculate_def assms Let_def eq any_override_spec_get
        any_override_spec_keys MAX_VENDOR_DEVICE_def)
qed

theorem C3_any_override_witness:
  "process_lines [''5.1.1-Leader:X,Router_1:Any,Router_2:X'' @ [LF], ''5.2.1-Leader:Y'' @ [LF]]
       (initial_state [''all'']) =
     Inr \<lparr>testbed_vendor_dict = [(''X'', 2), (''Any'', 1), (''Y'', 1)], case_list = [''all''],
          logged = [Case_header ''5.1.1'',
                    Role_vendor_pair
                      [[''Leader'', ''X''], [''Router_1'', ''Any''], [''Router_2'', ''X'']],
                    Vendor_devices [(''X'', 2), (''Any'', 1)],
                    Case_header ''5.2.1'',
                    Role_vendor_pair [[''Leader'', ''Y'']],
                    Vendor_devices [(''Y'', 1)]]\<rparr> \<and>
   (\<exists>r. device_calculate
          [''5.1.1-Leader:X,Router_1:Any,Router_2:X'' @ [LF], ''5.2.1-Leader:Y'' @ [LF]]
          [''all''] = Inr r \<and>
        testbed_vendor_dict r = [(''X'', 2), (''Any'', 29), (''Y'', 1)])"
proof -
  have h: "process_lines
       [''5.1.1-Leader:X,Router_1:Any,Router_2:X'' @ [LF], ''5.2.1-Leader:Y'' @ [LF]]
       (initial_state [''all'']) =
     Inr \<lparr>testbed_vendor_dict = [(''X'', 2), (''Any'', 1), (''Y'', 1)], case_list = [''all''],
          logged = [Case_header ''5.1.1'',
                    Role_vendor_pair
                      [[''Leader'', ''X''], [''Router_1'', ''Any''], [''Router_2'', ''X'']],
                    Vendor_devices [(''X'', 2), (''Any'', 1)],
                    Case_header ''5.2.1'',
                    Role_vendor_pair [[''Leader'', ''Y'']],
                    Vendor_devices [(''Y'', 1)]]\<rparr>"
    by code_simp
  have s: "any_override_spec [(''X'', 2), (''Any'', 1), (''Y'', 1)] =
      [(''X'', 2), (''Any'', 29), (''Y'', 1)]"
    by (simp add: any_override_spec_def counter_set_def counter_has_def MAX_VENDOR_DEVICE_def)
  from C3_any_override [OF h] obtain r where
    "device_calculate
          [''5.1.1-Leader:X,Router_1:Any,Router_2:X'' @ [LF], ''5.2.1-Leader:Y'' @ [LF]]
          [''all''] = Inr r"
    and "testbed_vendor_dict r = any_override_spec [(''X'', 2), (''Any'', 1), (''Y'', 1)]"
    by auto
  then have "\<exists>r. device_calculate
          [''5.1.1-Leader:X,Router_1:Any,Router_2:X'' @ [LF], ''5.2.1-Leader:Y'' @ [LF]]
          [''all''] = Inr r \<and>
        testbed_vendor_dict r = [(''X'', 2), (''Any'', 29), (''Y'', 1)]"
    unfolding s by blast
  with h show ?thesis by (rule conjI)
qed

subsection \<open>The decomposition of a case record\<close>

lemma re_match_case_last_dash:
  assumes "LF \<notin> set line" and "CHR ''-'' \<in> set line"
  shows "\<exists>a b. re_match_case line = Some (a, b) \<and> line = a @ CHR ''-'' # b \<and> CHR ''-'' \<notin> set b"
proof -
  let ?P = "\<lambda>c. c \<noteq> CHR ''-''"
  have seg: "takeWhile (\<lambda>c. c \<noteq> LF) line = line"
    using assms(1) by (auto simp: takeWhile_eq_all_conv)
  have ne: "dropWhile ?P (rev line) \<noteq> []"
    using assms(2) by (auto simp: dropWhile_eq_Nil_conv)
  then have hd: "hd (dropWhile ?P (rev line)) = CHR ''-''"
    using hd_dropWhile [of ?P "rev line"] by simp
  have "rev line = takeWhile ?P (rev line) @ dropWhile ?P (rev line)"
    by simp
  also have "dropWhile ?P (rev line) = CHR ''-'' # tl (dropWhile ?P (rev line))"
    using ne hd by (cases "dropWhile ?P (rev line)") auto
  finally have "rev (rev line) =
      rev (takeWhile ?P (rev line) @ CHR ''-'' # tl (dropWhile ?P (rev line)))"
    by simp
  then have split: "line = rev (tl (dropWhile ?P (rev line))) @ CHR ''-'' # rev (takeWhile ?P (rev line))"
    by simp
  have nodash: "CHR ''-'' \<notin> set (rev (takeWhile ?P (rev line)))"
    by (auto dest: set_takeWhileD)
  have "re_match_case line =
      Some (rev (tl (dropWhile ?P (rev line))), rev (takeWhile ?P (rev line)))"
    using assms(2) by (simp add: re_match_case_def seg)
  with split nodash show ?thesis by blast
qed

text \<open>
  In general the groups of the match are parts of the text before the first line feed:
  the line is the first group, a \<open>-\<close>, the second group and a rest that is empty or
  starts with a line feed; no group holds a line feed and the second holds no \<open>-\<close>.
\<close>

lemma re_match_case_groups:
  assumes "re_match_case line = Some (a, b)"
  shows "\<exists>rest. line = a @ CHR ''-'' # b @ rest \<and> LF \<notin> set a \<and> LF \<notin> set b \<and>
           CHR ''-'' \<notin> set b \<and> (rest = [] \<or> hd rest = LF)"
proof -
  let ?seg = "takeWhile (\<lambda>c. c \<noteq> LF) line"
  let ?rest = "dropWhile (\<lambda>c. c \<noteq> LF) line"
  from assms have dash: "CHR ''-'' \<in> set ?seg"
    by (auto simp: re_match_case_def Let_def split: if_splits)
  have nolf: "LF \<notin> set ?seg"
    by (auto dest: set_takeWhileD)
  from re_match_case_last_dash [OF nolf dash] obtain a' b' where
    m: "re_match_case ?seg = Some (a', b')" and s: "?seg = a' @ CHR ''-'' # b'"
    and n: "CHR ''-'' \<notin> set b'"
    by blast
  have "re_match_case ?seg = re_match_case line"
    by (simp add: re_match_case_def)
  with m assms have ab: "a' = a" "b' = b" by simp_all
  have r: "?rest = [] \<or> hd ?rest = LF"
    using hd_dropWhile [of "\<lambda>c. c \<noteq> LF" line] by auto
  have "line = ?seg @ ?rest" by simp
  with s ab have l: "line = a @ CHR ''-'' # b @ ?rest" by simp
  from nolf s ab have "LF \<notin> set a" "LF \<notin> set b" by auto
  with l n ab r show ?thesis by blast
qed

text \<open>The pieces of \<open>re.split\<close>: one more than there are separators, none holding the
  separator.\<close>

lemma re_split_nonempty: "re_split sep s \<noteq> []"
  by (induction s) (auto simp: Let_def)

lemma re_split_length: "length (re_split sep s) = Suc (count_list s sep)"
  by (induction s) (auto simp: Let_def re_split_nonempty)

lemma re_split_pieces: "p \<in> set (re_split sep s) \<Longrightarrow> sep \<notin> set p"
proof (induction s arbitrary: p)
  case Nil
  then show ?case by simp
next
  case (Cons c s)
  show ?case
  proof (cases "c = sep")
    case True
    with Cons show ?thesis by (auto simp: Let_def)
  next
    case False
    obtain q qs where q: "re_split sep s = q # qs"
      using re_split_nonempty [of sep s] by (cases "re_split sep s") auto
    with Cons False show ?thesis by (auto simp: Let_def)
  qed
qed

lemma process_line_selected_log:
  assumes "\<not> re_match_comment line" and "re_match_case line = Some (g1, g2)"
    and "''all'' \<in> set (case_list st)"
  shows "\<exists>rest. outcome_log (process_line line st) =
           logged st @ Case_header g1 #
             Role_vendor_pair (map (re_split CHR '':'') (re_split CHR '','' g2)) # rest"
  using assms unfolding process_line_def outcome_log_def Let_def
  by (auto split: sum.splits)

text \<open>
  Claim C1, as stated: a line with a \<open>-\<close> that is neither blank nor a comment is split at
  its first \<open>-\<close>. It fails for a line with two: for \<open>5.1.1-Leader:ARM,Router-1:ARM\<close> the
  text before the first \<open>-\<close> is \<open>5.1.1\<close> and the text after it is
  \<open>Leader:ARM,Router-1:ARM\<close>, but the groups of the match are \<open>5.1.1-Leader:ARM,Router\<close>
  and \<open>1:ARM\<close>, and the run reports that case with one device.
\<close>

theorem C1_first_dash_counterexample:
  "CHR ''-'' \<in> set (strip (''5.1.1-Leader:ARM,Router-1:ARM'' @ [LF])) \<and>
   \<not> re_match_comment (strip (''5.1.1-Leader:ARM,Router-1:ARM'' @ [LF])) \<and>
   takeWhile (\<lambda>c. c \<noteq> CHR ''-'') (strip (''5.1.1-Leader:ARM,Router-1:ARM'' @ [LF])) = ''5.1.1'' \<and>
   tl (dropWhile (\<lambda>c. c \<noteq> CHR ''-'') (strip (''5.1.1-Leader:ARM,Router-1:ARM'' @ [LF]))) =
     ''Leader:ARM,Router-1:ARM'' \<and>
   re_match_case (strip (''5.1.1-Leader:ARM,Router-1:ARM'' @ [LF])) =
     Some (''5.1.1-Leader:ARM,Router'', ''1:ARM'') \<and>
   device_calculate [''5.1.1-Leader:ARM,Router-1:ARM'' @ [LF]] [''all''] =
     Inr \<lparr>testbed_vendor_dict = [(''ARM'', 1)], case_list = [''all''],
          logged = [Case_header ''5.1.1-Leader:ARM,Router'',
                    Role_vendor_pair [[''1'', ''ARM'']],
                    Vendor_devices [(''ARM'', 1)],
                    Testbed_needed [(''ARM'', 1)]]\<rparr>"
  by code_simp

text \<open>
  Claim C1, amended: a line that, stripped, holds a \<open>-\<close> and is no comment is split at its
  last \<open>-\<close>: the case identifier is everything before the last \<open>-\<close> and the role-vendor
  string everything after it. (A line of the file holds its only line feed at its end, so
  the stripped line holds none.) These are the two groups of the match; under a selection
  with \<open>all\<close> the loop logs the header of that case identifier and the role-vendor list
  split from that string.
\<close>

theorem C1_split_at_last_dash:
  assumes "CHR ''-'' \<in> set (strip line)" and "LF \<notin> set (strip line)"
    and "\<not> re_match_comment (strip line)"
  shows "\<exists>case_id role_vendor_str.
           strip line = case_id @ CHR ''-'' # role_vendor_str \<and>
           CHR ''-'' \<notin> set role_vendor_str \<and>
           re_match_case (strip line) = Some (case_id, role_vendor_str) \<and>
           (\<forall>st. ''all'' \<in> set (case_list st) \<longrightarrow>
              (\<exists>rest. outcome_log (process_line (strip line) st) =
                 logged st @ Case_header case_id #
                   Role_vendor_pair (map (re_split CHR '':'') (re_split CHR '','' role_vendor_str)) #
                   rest))"
proof -
  from re_match_case_last_dash [OF assms(2) assms(1)] obtain a b where
    m: "re_match_case (strip line) = Some (a, b)" and s: "strip line = a @ CHR ''-'' # b"
    and n: "CHR ''-'' \<notin> set b"
    by blast
  have "\<forall>st. ''all'' \<in> set (case_list st) \<longrightarrow>
      (\<exists>rest. outcome_log (process_line (strip line) st) =
         logged st @ Case_header a #
           Role_vendor_pair (map (re_split CHR '':'') (re_split CHR '','' b)) # rest)"
    using process_line_selected_log [OF assms(3) m] by blast
  with m s n show ?thesis by blast
qed

theorem C1_split_at_last_dash_witness:
  "CHR ''-'' \<in> set (strip (''5.1.1-Leader:ARM,Router-1:ARM'' @ [LF])) \<and>
   LF \<notin> set (strip (''5.1.1-Leader:ARM,Router-1:ARM'' @ [LF])) \<and>
   \<not> re_match_comment (strip (''5.1.1-Leader:ARM,Router-1:ARM'' @ [LF])) \<and>
   (\<exists>case_id role_vendor_str.
      strip (''5.1.1-Leader:ARM,Router-1:ARM'' @ [LF]) = case_id @ CHR ''-'' # role_vendor_str \<and>
      CHR ''-'' \<notin> set role_vendor_str \<and>
      re_match_case (strip (''5.1.1-Leader:ARM,Router-1:ARM'' @ [LF])) =
        Some (case_id, role_vendor_str))"
proof -
  have h1: "CHR ''-'' \<in> set (strip (''5.1.1-Leader:ARM,Router-1:ARM'' @ [LF]))"
    by code_simp
  have h2: "LF \<notin> set (strip (''5.1.1-Leader:ARM,Router-1:ARM'' @ [LF]))"
    by code_simp
  have h3: "\<not> re_match_comment (strip (''5.1.1-Leader:ARM,Router-1:ARM'' @ [LF]))"
    by code_simp
  from C1_split_at_last_dash [OF h1 h2 h3] have
    "\<exists>case_id role_vendor_str.
      strip (''5.1.1-Leader:ARM,Router-1:ARM'' @ [LF]) = case_id @ CHR ''-'' # role_vendor_str \<and>
      CHR ''-'' \<notin> set role_vendor_str \<and>
      re_match_case (strip (''5.1.1-Leader:ARM,Router-1:ARM'' @ [LF])) =
        Some (case_id, role_vendor_str)"
    by blast
  with h1 h2 h3 show ?thesis by blast
qed

subsection \<open>A role-vendor token that is not a pair\<close>

text \<open>
  Claim C6: a selected case record with a token that does not split on \<open>:\<close> into exactly
  two parts is a fatal format error; the offending line and the failure are reported, the
  run ends and no later line contributes. In the code the unpacking of line 122 stands
  after the \<open>try\<close> block: the \<open>ValueError\<close> ends the run, and no later line is read, but
  the handler that logs \<open>Unrecognized format\<close> with the line is not reached. For the token
  \<open>Leader:ARM:x\<close> the log holds the header and the role-vendor list of the case and no
  entry for the error.
\<close>

theorem C6_unpack_error_not_reported:
  "device_calculate
     [''5.1.1-Leader:ARM:x,Router_1:ARM'' @ [LF], ''5.2.1-Leader:ARM'' @ [LF]] [''all''] =
   Inl (ValueError_unpack 3,
        [Case_header ''5.1.1'',
         Role_vendor_pair [[''Leader'', ''ARM'', ''x''], [''Router_1'', ''ARM'']]]) \<and>
   Unrecognized_format ''5.1.1-Leader:ARM:x,Router_1:ARM'' (ValueError_unpack 3) \<notin>
     set (outcome_log (device_calculate
       [''5.1.1-Leader:ARM:x,Router_1:ARM'' @ [LF], ''5.2.1-Leader:ARM'' @ [LF]] [''all'']))"
  by code_simp

subsection \<open>Explicit selections\<close>

lemma remove1_removeAll:
  "a \<noteq> x \<Longrightarrow> remove1 a (removeAll x xs) = removeAll x (remove1 a xs)"
  by (induction xs) auto

lemma case_reports_append: "case_reports (a @ b) = case_reports a @ case_reports b"
  by (induction a rule: case_reports.induct) auto

lemma case_id_of_Some:
  "case_id_of l = Some g \<longleftrightarrow>
     \<not> re_match_comment (strip l) \<and> (\<exists>g2. re_match_case (strip l) = Some (g, g2))"
  by (auto simp: case_id_of_def)

lemma process_line_case_list:
  assumes "process_line line st = Inr st'"
  shows "set (case_list st') \<subseteq> set (case_list st)"
  using process_line_Inr [OF assms]
  by (auto split: if_splits dest: set_remove1_subset [THEN subsetD])

lemma process_lines_case_list:
  assumes "process_lines f st = Inr st'"
  shows "set (case_list st') \<subseteq> set (case_list st)"
  using assms
proof (induction f arbitrary: st)
  case Nil
  then show ?case by simp
next
  case (Cons line rest)
  show ?case
  proof (cases "line = []")
    case True
    with Cons.prems show ?thesis by simp
  next
    case False
    with Cons.prems obtain st1 where
      one: "process_line (strip line) st = Inr st1" and tail: "process_lines rest st1 = Inr st'"
      by (auto split: sum.splits)
    from process_line_case_list [OF one] Cons.IH [OF tail] show ?thesis by blast
  qed
qed

lemma process_line_unmatched:
  assumes "''all'' \<notin> set (case_list st)"
    and "re_match_comment line \<or> (\<forall>g2. re_match_case line \<noteq> Some (x, g2))"
  shows "process_line line (st\<lparr>case_list := removeAll x (case_list st)\<rparr>) =
         (case process_line line st of Inl e \<Rightarrow> Inl e
            | Inr s \<Rightarrow> Inr (s\<lparr>case_list := removeAll x (case_list s)\<rparr>)) \<and>
         (\<forall>st'. process_line line st = Inr st' \<longrightarrow> x \<in> set (case_list st) \<longrightarrow>
            x \<in> set (case_list st'))"
proof (cases "re_match_comment line")
  case True
  then show ?thesis by (simp add: process_line_def)
next
  case False
  show ?thesis
  proof (cases "re_match_case line")
    case None
    with False show ?thesis by (simp add: process_line_def)
  next
    case (Some g)
    obtain g1 g2 where g: "g = (g1, g2)" by (cases g)
    with Some assms(2) False have ne: "g1 \<noteq> x" by auto
    show ?thesis
      using False Some g ne assms(1)
      by (auto simp: process_line_def list_remove_def Let_def remove1_removeAll
          split: sum.splits)
  qed
qed


lemma process_lines_unmatched:
  assumes "''all'' \<notin> set (case_list st)"
    and "\<forall>l\<in>set f. case_id_of l \<noteq> Some x"
  shows "process_lines f (st\<lparr>case_list := removeAll x (case_list st)\<rparr>) =
         (case process_lines f st of Inl e \<Rightarrow> Inl e
            | Inr s \<Rightarrow> Inr (s\<lparr>case_list := removeAll x (case_list s)\<rparr>)) \<and>
         (\<forall>st'. process_lines f st = Inr st' \<longrightarrow> x \<in> set (case_list st) \<longrightarrow>
            x \<in> set (case_list st'))"
  using assms
proof (induction f arbitrary: st)
  case Nil
  show ?case by simp
next
  case (Cons line rest)
  show ?case
  proof (cases "line = []")
    case True
    then show ?thesis by simp
  next
    case False
    from Cons.prems(2) have
      "re_match_comment (strip line) \<or> (\<forall>g2. re_match_case (strip line) \<noteq> Some (x, g2))"
      by (auto simp: case_id_of_Some)
    note one = process_line_unmatched [OF Cons.prems(1) this]
    show ?thesis
    proof (cases "process_line (strip line) st")
      case (Inl e)
      with one False show ?thesis by simp
    next
      case (Inr st1)
      from process_line_case_list [OF Inr] Cons.prems(1)
      have "''all'' \<notin> set (case_list st1)" by blast
      moreover from Cons.prems(2) have "\<forall>l\<in>set rest. case_id_of l \<noteq> Some x" by simp
      ultimately have ih:
        "process_lines rest (st1\<lparr>case_list := removeAll x (case_list st1)\<rparr>) =
           (case process_lines rest st1 of Inl e \<Rightarrow> Inl e
            | Inr s \<Rightarrow> Inr (s\<lparr>case_list := removeAll x (case_list s)\<rparr>)) \<and>
         (\<forall>st'. process_lines rest st1 = Inr st' \<longrightarrow> x \<in> set (case_list st1) \<longrightarrow>
            x \<in> set (case_list st'))"
        by (rule Cons.IH)
      from one Inr False ih show ?thesis by simp
    qed
  qed
qed

text \<open>
  An identifier \<open>x\<close> that is the case identifier of no record changes nothing but the
  selection: the run with \<open>x\<close> in the selection raises exactly when the run without it
  does, with the same exception and log; when it ends normally, both runs give the same
  tally and the same reports, and \<open>x\<close> is still in the selection at the end.
\<close>

lemma removal_of_unmatched:
  assumes "''all'' \<notin> set cl" and "\<forall>l\<in>set f. case_id_of l \<noteq> Some x"
  shows "(\<forall>e. device_calculate f (removeAll x cl) = Inl e \<longleftrightarrow> device_calculate f cl = Inl e) \<and>
         (\<forall>r. device_calculate f cl = Inr r \<longrightarrow>
            (\<exists>r'. device_calculate f (removeAll x cl) = Inr r' \<and>
                  testbed_vendor_dict r' = testbed_vendor_dict r \<and>
                  case_list r' = removeAll x (case_list r) \<and>
                  case_reports (logged r') = case_reports (logged r)) \<and>
            (x \<in> set cl \<longrightarrow>
               x \<in> set (case_list r) \<and> Case_not_found (case_list r) \<in> set (logged r)))"
proof -
  have a: "''all'' \<notin> set (case_list (initial_state cl))"
    using assms(1) by (simp add: initial_state_def)
  have i: "(initial_state cl)\<lparr>case_list := removeAll x (case_list (initial_state cl))\<rparr> =
      initial_state (removeAll x cl)"
    by (simp add: initial_state_def)
  note u = process_lines_unmatched [OF a assms(2), unfolded i]
  show ?thesis
  proof (cases "process_lines f (initial_state cl)")
    case (Inl e)
    with u show ?thesis by (simp add: device_calculate_def)
  next
    case (Inr st)
    from process_lines_case_list [OF Inr] assms(1)
    have na: "''all'' \<notin> set (case_list st)" by (auto simp: initial_state_def)
    from u Inr have k: "x \<in> set cl \<Longrightarrow> x \<in> set (case_list st)"
      by (simp add: initial_state_def)
    from u Inr have
      p: "process_lines f (initial_state (removeAll x cl)) =
            Inr (st\<lparr>case_list := removeAll x (case_list st)\<rparr>)"
      by simp
    show ?thesis
      using na k
      by (auto simp: device_calculate_def Inr p Let_def case_reports_append)
  qed
qed

lemma remove1_single:
  assumes "count_list xs x = 1"
  shows "x \<notin> set (remove1 x xs)"
  using assms
proof (induction xs)
  case Nil
  then show ?case by simp
next
  case (Cons a xs)
  show ?case
  proof (cases "a = x")
    case True
    with Cons.prems have "count_list xs x = 0" by simp
    then have "x \<notin> set xs" using count_list_0_iff [of xs x] by blast
    with True show ?thesis by simp
  next
    case False
    with Cons.prems have "count_list xs x = 1" by simp
    from Cons.IH [OF this] False show ?thesis by simp
  qed
qed

lemma process_line_selected:
  assumes "\<not> re_match_comment line" and "re_match_case line = Some (g1, g2)"
    and "''all'' \<notin> set (case_list st)" and "g1 \<in> set (case_list st)"
    and "process_line line st = Inr st'"
  shows "case_list st' = remove1 g1 (case_list st) \<and>
         (\<exists>cvd. logged st' = logged st @
            [Case_header g1, Role_vendor_pair (map (re_split CHR '':'') (re_split CHR '','' g2)),
             Vendor_devices cvd])"
  using assms unfolding process_line_def list_remove_def Let_def
  by (auto split: sum.splits)

lemma process_line_not_selected:
  assumes "\<not> re_match_comment line" and "re_match_case line = Some (g1, g2)"
    and "''all'' \<notin> set (case_list st)" and "g1 \<notin> set (case_list st)"
  shows "process_line line st = Inr st"
  using assms by (simp add: process_line_def)

lemma reported_ids_append: "reported_ids (a @ b) = reported_ids a @ reported_ids b"
  by (induction a rule: reported_ids.induct) auto

lemma reported_not_found_append:
  "reported_not_found (a @ b) = reported_not_found a @ reported_not_found b"
  by (induction a rule: reported_not_found.induct) auto

lemma record_ids_Nil: "record_ids [] = []"
  by (simp add: record_ids_def)

lemma record_ids_Cons:
  "record_ids (l # ls) = (case case_id_of l of None \<Rightarrow> record_ids ls | Some g \<Rightarrow> g # record_ids ls)"
  by (simp add: record_ids_def map_filter_simps split: option.splits)

lemma count_list_remove1_other: "g \<noteq> x \<Longrightarrow> count_list (remove1 g xs) x = count_list xs x"
  by (induction xs) auto

lemma count_list_remove1_same:
  "g \<in> set xs \<Longrightarrow> count_list (remove1 g xs) g = count_list xs g - 1"
  by (induction xs) auto

lemma count_list_pos: "g \<in> set xs \<Longrightarrow> 0 < count_list xs g"
  using count_list_0_iff [of xs g] by auto

text \<open>One line under an explicit selection, when no exception is raised.\<close>

lemma process_line_explicit:
  assumes sel: "''all'' \<notin> set (case_list st)" and ok: "process_line (strip l) st = Inr st1"
  shows "(case case_id_of l of
            None \<Rightarrow> st1 = st
          | Some g \<Rightarrow>
              if g \<in> set (case_list st)
              then case_list st1 = remove1 g (case_list st) \<and>
                   (\<exists>cvd. logged st1 = logged st @
                      [Case_header g, Role_vendor_pair (role_vendor_list_of l), Vendor_devices cvd])
              else st1 = st)"
proof (cases "re_match_comment (strip l)")
  case True
  with ok show ?thesis by (simp add: process_line_comment case_id_of_def)
next
  case nc: False
  show ?thesis
  proof (cases "re_match_case (strip l)")
    case None
    with nc ok show ?thesis by (simp add: process_line_def)
  next
    case (Some gr)
    obtain g rvs where gr: "gr = (g, rvs)" by (cases gr)
    have id: "case_id_of l = Some g" using nc Some gr by (simp add: case_id_of_def)
    have m: "re_match_case (strip l) = Some (g, rvs)" using Some gr by simp
    show ?thesis
    proof (cases "g \<in> set (case_list st)")
      case True
      from process_line_selected [OF nc m sel True ok] show ?thesis
        by (simp add: id True role_vendor_list_of_def m)
    next
      case False
      from process_line_not_selected [OF nc m sel False] ok show ?thesis
        by (simp add: id False)
    qed
  qed
qed


lemma selected_records_count:
  "count_list (record_ids (selected_records f sel)) g =
     min (count_list sel g) (count_list (record_ids f) g)"
proof (induction f arbitrary: sel)
  case Nil
  show ?case by (simp add: record_ids_Nil)
next
  case (Cons l rest)
  show ?case
  proof (cases "case_id_of l")
    case None
    then show ?thesis by (simp add: record_ids_Cons Cons.IH)
  next
    case (Some h)
    show ?thesis
    proof (cases "h \<in> set sel")
      case False
      then have "count_list sel h = 0" by (simp add: count_list_0_iff)
      with False Some show ?thesis by (auto simp: record_ids_Cons Cons.IH)
    next
      case True
      show ?thesis
      proof (cases "g = h")
        case same: True
        from True have pos: "0 < count_list sel h" by (rule count_list_pos)
        have "count_list (record_ids (selected_records rest (remove1 h sel))) h =
            min (count_list sel h - 1) (count_list (record_ids rest) h)"
          using Cons.IH [of "remove1 h sel"] same True by (simp add: count_list_remove1_same)
        with pos have "Suc (count_list (record_ids (selected_records rest (remove1 h sel))) h) =
            min (count_list sel h) (Suc (count_list (record_ids rest) h))"
          by arith
        with True Some same show ?thesis
          by (simp add: record_ids_Cons)
      next
        case False
        then have "h \<noteq> g" by simp
        with True Some show ?thesis
          by (simp add: record_ids_Cons Cons.IH count_list_remove1_other)
      qed
    qed
  qed
qed

lemma filter_not_in_Cons:
  "g \<notin> set xs \<Longrightarrow> filter (\<lambda>x. x \<notin> set (g # ids)) xs = filter (\<lambda>x. x \<notin> set ids) xs"
  by (rule filter_cong) auto

lemma filter_remove1_distinct:
  assumes "distinct xs"
  shows "filter (\<lambda>x. x \<notin> set ids) (remove1 g xs) = filter (\<lambda>x. x \<notin> set (g # ids)) xs"
proof -
  have "remove1 g xs = filter (\<lambda>y. g \<noteq> y) xs"
    using assms by (simp add: distinct_remove1_removeAll removeAll_filter_not_eq)
  then have "filter (\<lambda>x. x \<notin> set ids) (remove1 g xs) =
      filter (\<lambda>x. g \<noteq> x \<and> x \<notin> set ids) xs"
    by (simp add: conj_commute)
  also have "\<dots> = filter (\<lambda>x. x \<notin> set (g # ids)) xs"
    by (rule filter_cong) auto
  finally show ?thesis .
qed

lemma process_lines_explicit:
  assumes "''all'' \<notin> set (case_list st)" and "[] \<notin> set f" and "process_lines f st = Inr st'"
  shows "(\<forall>x. count_list (case_list st') x =
               count_list (case_list st) x - count_list (record_ids f) x) \<and>
         (distinct (case_list st) \<longrightarrow>
            case_list st' = filter (\<lambda>x. x \<notin> set (record_ids f)) (case_list st)) \<and>
         reported_ids (logged st') =
           reported_ids (logged st) @ record_ids (selected_records f (case_list st)) \<and>
         reported_cases (logged st') =
           reported_cases (logged st) @ map role_vendor_list_of (selected_records f (case_list st)) \<and>
         reported_not_found (logged st') = reported_not_found (logged st)"
  using assms
proof (induction f arbitrary: st)
  case Nil
  then show ?case by (simp add: record_ids_Nil)
next
  case (Cons l rest)
  from Cons.prems(2) have l: "l \<noteq> []" and rest: "[] \<notin> set rest" by auto
  from Cons.prems(3) l obtain st1 where
    one: "process_line (strip l) st = Inr st1" and tail: "process_lines rest st1 = Inr st'"
    by (auto split: sum.splits)
  note step = process_line_explicit [OF Cons.prems(1) one]
  show ?case
  proof (cases "case_id_of l")
    case None
    with step have "st1 = st" by simp
    with Cons.IH [OF _ rest tail] Cons.prems(1) None show ?thesis
      by (simp add: record_ids_Cons)
  next
    case (Some g)
    show ?thesis
    proof (cases "g \<in> set (case_list st)")
      case False
      with step Some have same: "st1 = st" by simp
      from False have zero: "count_list (case_list st) g = 0" by (simp add: count_list_0_iff)
      note ih = Cons.IH [OF _ rest tail, unfolded same, OF Cons.prems(1)]
      have c: "count_list (case_list st') x =
          count_list (case_list st) x - count_list (record_ids (l # rest)) x" for x
        using ih zero by (cases "x = g") (simp_all add: record_ids_Cons Some)
      have rid: "record_ids (l # rest) = g # record_ids rest"
        by (simp add: record_ids_Cons Some)
      have d: "distinct (case_list st) \<longrightarrow>
          case_list st' = filter (\<lambda>x. x \<notin> set (record_ids (l # rest))) (case_list st)"
        unfolding rid filter_not_in_Cons [OF False] using ih by blast
      from ih False Some c d show ?thesis by simp
    next
      case True
      with step Some obtain cvd where
        cl1: "case_list st1 = remove1 g (case_list st)"
        and lg1: "logged st1 = logged st @
          [Case_header g, Role_vendor_pair (role_vendor_list_of l), Vendor_devices cvd]"
        by auto
      from cl1 Cons.prems(1) have a1: "''all'' \<notin> set (case_list st1)"
        by (auto dest: set_remove1_subset [THEN subsetD])
      note ih = Cons.IH [OF a1 rest tail]
      have c: "count_list (case_list st') x =
          count_list (case_list st) x - count_list (record_ids (l # rest)) x" for x
      proof (cases "x = g")
        case True
        with ih cl1 \<open>g \<in> set (case_list st)\<close> show ?thesis
          by (simp add: record_ids_Cons Some count_list_remove1_same)
      next
        case False
        then have "g \<noteq> x" by simp
        with ih cl1 show ?thesis
          by (simp add: record_ids_Cons Some count_list_remove1_other)
      qed
      have rid: "record_ids (l # rest) = g # record_ids rest"
        by (simp add: record_ids_Cons Some)
      have d: "distinct (case_list st) \<longrightarrow>
          case_list st' = filter (\<lambda>x. x \<notin> set (record_ids (l # rest))) (case_list st)"
      proof
        assume dist: "distinct (case_list st)"
        then have "distinct (case_list st1)" by (simp add: cl1)
        with ih have "case_list st' =
            filter (\<lambda>x. x \<notin> set (record_ids rest)) (remove1 g (case_list st))"
          by (simp add: cl1)
        also have "\<dots> = filter (\<lambda>x. x \<notin> set (g # record_ids rest)) (case_list st)"
          by (rule filter_remove1_distinct [OF dist])
        finally show "case_list st' =
            filter (\<lambda>x. x \<notin> set (record_ids (l # rest))) (case_list st)"
          unfolding rid .
      qed
      have i: "reported_ids (logged st') =
          reported_ids (logged st) @ record_ids (selected_records (l # rest) (case_list st))"
        using ih cl1 lg1 True by (simp add: Some reported_ids_append record_ids_Cons)
      have r: "reported_cases (logged st') =
          reported_cases (logged st) @
            map role_vendor_list_of (selected_records (l # rest) (case_list st))"
        using ih cl1 lg1 True by (simp add: Some reported_cases_append)
      have n: "reported_not_found (logged st') = reported_not_found (logged st)"
        using ih lg1 by (simp add: reported_not_found_append)
      from c d i r n show ?thesis by blast
    qed
  qed
qed


lemma set_record_ids: "g \<in> set (record_ids f) \<longleftrightarrow> (\<exists>l\<in>set f. case_id_of l = Some g)"
  by (induction f) (auto simp: record_ids_Nil record_ids_Cons split: option.splits)

lemma reachable_tally_max:
  assumes "process_lines f (initial_state cl) = Inr st"
  shows "counter_get (testbed_vendor_dict st) v =
           Max (set (0 # map (\<lambda>ps. vendor_count ps v) (reported_cases (logged st)))) \<and>
         0 \<le> counter_get (testbed_vendor_dict st) v"
proof -
  have "\<forall>u. 0 \<le> counter_get (testbed_vendor_dict (initial_state cl)) u"
    by (simp add: initial_state_def counter_get_Nil)
  from process_lines_fold [OF assms this] obtain new where
    a1: "reported_cases (logged st) = new"
    and a4: "counter_get (testbed_vendor_dict st) v =
               fold max (map (\<lambda>ps. vendor_count ps v) new) 0"
    by (auto simp: initial_state_def counter_get_Nil)
  have "0 \<le> fold max (map (\<lambda>ps. vendor_count ps v) new) 0"
    by (rule fold_max_ge)
  then show ?thesis
    unfolding a1 Max.set_eq_fold using a4 by simp
qed

subsection \<open>Identifiers of the selection that match no record\<close>

text \<open>
  Claim C7: under an explicit selection, the identifiers that match no case record are not
  fatal, they are reported at the end as the list of the cases not found, and the other
  cases are processed as without them.

  First, for an identifier \<open>x\<close> that is the case identifier of no record: the run with \<open>x\<close>
  in the selection raises exactly when the run without it does; when it ends normally, the
  run without \<open>x\<close> gives the same tally and the same case reports and leaves the same
  selection but for \<open>x\<close>.

  Second, for a file without an empty line and a run that ends normally:
  \<^item> the selection left at the end holds every identifier as often as the selection had
    it, less the number of records with that identifier; for a selection without repeats
    it is exactly the list of the selected identifiers that are the identifier of no
    record, in the order of the selection;
  \<^item> that list is what the log reports as not found, once, if it is not empty, and the log
    reports nothing as not found if it is empty;
  \<^item> the cases reported are those of the selected records, in the order of the file, each
    with the role-vendor list of its record; every identifier is reported as often as the
    selection and the file both have it;
  \<^item> the final tally of every vendor other than \<open>Any\<close> is the maximum, over the cases
    reported, of the number of pairs with that vendor.
\<close>

theorem C7_unmatched_identifier:
  assumes "''all'' \<notin> set cl"
  shows "(\<forall>x. x \<notin> set (record_ids f) \<longrightarrow>
            (\<forall>e. device_calculate f (removeAll x cl) = Inl e \<longleftrightarrow> device_calculate f cl = Inl e) \<and>
            (\<forall>r. device_calculate f cl = Inr r \<longrightarrow>
               (\<exists>r'. device_calculate f (removeAll x cl) = Inr r' \<and>
                     testbed_vendor_dict r' = testbed_vendor_dict r \<and>
                     case_list r' = removeAll x (case_list r) \<and>
                     case_reports (logged r') = case_reports (logged r)))) \<and>
         ([] \<notin> set f \<longrightarrow>
            (\<forall>r. device_calculate f cl = Inr r \<longrightarrow>
               (\<forall>x. count_list (case_list r) x =
                      count_list cl x - count_list (record_ids f) x) \<and>
               (distinct cl \<longrightarrow> case_list r = filter (\<lambda>x. x \<notin> set (record_ids f)) cl) \<and>
               reported_not_found (logged r) = (if case_list r = [] then [] else [case_list r]) \<and>
               reported_ids (logged r) = record_ids (selected_records f cl) \<and>
               (\<forall>g. count_list (reported_ids (logged r)) g =
                      min (count_list cl g) (count_list (record_ids f) g)) \<and>
               reported_cases (logged r) = map role_vendor_list_of (selected_records f cl) \<and>
               (\<forall>v. v \<noteq> ''Any'' \<longrightarrow>
                  counter_get (testbed_vendor_dict r) v =
                    Max (set (0 # map (\<lambda>ps. vendor_count ps v) (reported_cases (logged r)))))))"
proof (intro conjI allI impI)
  fix x assume "x \<notin> set (record_ids f)"
  then have u: "\<forall>l\<in>set f. case_id_of l \<noteq> Some x" by (simp add: set_record_ids)
  from removal_of_unmatched [OF assms u]
  show "\<And>e. device_calculate f (removeAll x cl) = Inl e \<longleftrightarrow> device_calculate f cl = Inl e"
    by blast
  fix r assume "device_calculate f cl = Inr r"
  with removal_of_unmatched [OF assms u]
  show "\<exists>r'. device_calculate f (removeAll x cl) = Inr r' \<and>
                     testbed_vendor_dict r' = testbed_vendor_dict r \<and>
                     case_list r' = removeAll x (case_list r) \<and>
                     case_reports (logged r') = case_reports (logged r)"
    by blast
next
  fix r
  assume ne: "[] \<notin> set f" and run: "device_calculate f cl = Inr r"
  from run obtain st where st: "process_lines f (initial_state cl) = Inr st"
    by (auto simp: device_calculate_def split: sum.splits)
  have a0: "''all'' \<notin> set (case_list (initial_state cl))"
    using assms by (simp add: initial_state_def)
  from process_lines_case_list [OF st] assms
  have na: "''all'' \<notin> set (case_list st)" by (auto simp: initial_state_def)
  from run st na have cl: "case_list r = case_list st"
    and tv: "testbed_vendor_dict r = any_override (testbed_vendor_dict st)"
    and lg: "logged r = logged st @
        (if case_list st = [] then [] else [Case_not_found (case_list st)]) @
        [Testbed_needed (any_override (testbed_vendor_dict st))]"
    by (auto simp: device_calculate_def Let_def)
  note ex = process_lines_explicit [OF a0 ne st, unfolded initial_state_def, simplified]
  from ex have c: "\<And>x. count_list (case_list st) x = count_list cl x - count_list (record_ids f) x"
    and d: "distinct cl \<longrightarrow> case_list st = filter (\<lambda>x. x \<notin> set (record_ids f)) cl"
    and i: "reported_ids (logged st) = record_ids (selected_records f cl)"
    and rc: "reported_cases (logged st) = map role_vendor_list_of (selected_records f cl)"
    and nf: "reported_not_found (logged st) = []"
    by blast+
  show "\<And>x. count_list (case_list r) x = count_list cl x - count_list (record_ids f) x"
    by (simp add: cl c)
  show "case_list r = filter (\<lambda>x. x \<notin> set (record_ids f)) cl" if "distinct cl"
    using that d by (simp add: cl)
  show "reported_not_found (logged r) = (if case_list r = [] then [] else [case_list r])"
    by (simp add: lg cl reported_not_found_append nf)
  show ids: "reported_ids (logged r) = record_ids (selected_records f cl)"
    by (simp add: lg reported_ids_append i)
  show "\<And>g. count_list (reported_ids (logged r)) g =
      min (count_list cl g) (count_list (record_ids f) g)"
    unfolding ids by (rule selected_records_count)
  have rcr: "reported_cases (logged r) = reported_cases (logged st)"
    by (simp add: lg reported_cases_append)
  show "reported_cases (logged r) = map role_vendor_list_of (selected_records f cl)"
    by (simp add: rcr rc)
  fix v :: string assume v: "v \<noteq> ''Any''"
  have "counter_get (testbed_vendor_dict r) v = counter_get (testbed_vendor_dict st) v"
    using v by (simp add: tv any_override_refines [OF reachable_distinct [OF st]]
        any_override_spec_get)
  also have "\<dots> = Max (set (0 # map (\<lambda>ps. vendor_count ps v) (reported_cases (logged st))))"
    using reachable_tally_max [OF st, of v] by blast
  finally show "counter_get (testbed_vendor_dict r) v =
      Max (set (0 # map (\<lambda>ps. vendor_count ps v) (reported_cases (logged r))))"
    unfolding rcr .
qed

theorem C7_unmatched_identifier_witness:
  "''all'' \<notin> set [''5.1.1'', ''9.9.9''] \<and>
   [] \<notin> set [''5.1.1-Leader:ARM,Router_1:ARM'' @ [LF], ''5.2.1-Leader:Kirale'' @ [LF]] \<and>
   ''9.9.9'' \<notin> set (record_ids
     [''5.1.1-Leader:ARM,Router_1:ARM'' @ [LF], ''5.2.1-Leader:Kirale'' @ [LF]]) \<and>
   distinct [''5.1.1'', ''9.9.9''] \<and>
   device_calculate [''5.1.1-Leader:ARM,Router_1:ARM'' @ [LF], ''5.2.1-Leader:Kirale'' @ [LF]]
       [''5.1.1'', ''9.9.9''] =
     Inr \<lparr>testbed_vendor_dict = [(''ARM'', 2)], case_list = [''9.9.9''],
          logged = [Case_header ''5.1.1'',
                    Role_vendor_pair [[''Leader'', ''ARM''], [''Router_1'', ''ARM'']],
                    Vendor_devices [(''ARM'', 2)],
                    Case_not_found [''9.9.9''],
                    Testbed_needed [(''ARM'', 2)]]\<rparr> \<and>
   filter (\<lambda>x. x \<notin> set (record_ids
       [''5.1.1-Leader:ARM,Router_1:ARM'' @ [LF], ''5.2.1-Leader:Kirale'' @ [LF]]))
     [''5.1.1'', ''9.9.9''] = [''9.9.9''] \<and>
   record_ids (selected_records
       [''5.1.1-Leader:ARM,Router_1:ARM'' @ [LF], ''5.2.1-Leader:Kirale'' @ [LF]]
       [''5.1.1'', ''9.9.9'']) = [''5.1.1''] \<and>
   (\<exists>r'. device_calculate
           [''5.1.1-Leader:ARM,Router_1:ARM'' @ [LF], ''5.2.1-Leader:Kirale'' @ [LF]]
           (removeAll ''9.9.9'' [''5.1.1'', ''9.9.9'']) = Inr r' \<and>
         testbed_vendor_dict r' = [(''ARM'', 2)] \<and> case_list r' = []) \<and>
   device_calculate [''5.1.1-Leader:ARM,Router_1:ARM'' @ [LF]] [''9.9.9''] =
     Inr \<lparr>testbed_vendor_dict = [], case_list = [''9.9.9''],
          logged = [Case_not_found [''9.9.9''], Testbed_needed []]\<rparr>"
proof -
  let ?f = "[''5.1.1-Leader:ARM,Router_1:ARM'' @ [LF], ''5.2.1-Leader:Kirale'' @ [LF]]"
  let ?cl = "[''5.1.1'', ''9.9.9'']"
  let ?r = "\<lparr>testbed_vendor_dict = [(''ARM'', 2)], case_list = [''9.9.9''],
          logged = [Case_header ''5.1.1'',
                    Role_vendor_pair [[''Leader'', ''ARM''], [''Router_1'', ''ARM'']],
                    Vendor_devices [(''ARM'', 2)],
                    Case_not_found [''9.9.9''],
                    Testbed_needed [(''ARM'', 2)]]\<rparr>"
  have a: "''all'' \<notin> set ?cl" by simp
  have ne: "[] \<notin> set ?f" by simp
  have nm: "''9.9.9'' \<notin> set (record_ids ?f)" by code_simp
  have di: "distinct ?cl" by simp
  have d: "device_calculate ?f ?cl = Inr ?r" by code_simp
  have ex: "device_calculate [''5.1.1-Leader:ARM,Router_1:ARM'' @ [LF]] [''9.9.9''] =
     Inr \<lparr>testbed_vendor_dict = [], case_list = [''9.9.9''],
          logged = [Case_not_found [''9.9.9''], Testbed_needed []]\<rparr>"
    by code_simp
  note T = C7_unmatched_identifier [OF a, of ?f]
  note B = T [THEN conjunct2, rule_format, OF ne d]
  from B [THEN conjunct2, THEN conjunct1, rule_format, OF di]
  have "case_list ?r = filter (\<lambda>x. x \<notin> set (record_ids ?f)) ?cl" .
  then have fl: "filter (\<lambda>x. x \<notin> set (record_ids ?f)) ?cl = [''9.9.9'']"
    by simp
  from B [THEN conjunct2, THEN conjunct2, THEN conjunct2, THEN conjunct1]
  have "reported_ids (logged ?r) = record_ids (selected_records ?f ?cl)" .
  then have ids: "record_ids (selected_records ?f ?cl) = [''5.1.1'']"
    by simp
  from T [THEN conjunct1, rule_format, OF nm, THEN conjunct2, rule_format, OF d]
  have "\<exists>r'. device_calculate ?f (removeAll ''9.9.9'' ?cl) = Inr r' \<and>
      testbed_vendor_dict r' = testbed_vendor_dict ?r \<and>
      case_list r' = removeAll ''9.9.9'' (case_list ?r) \<and>
      case_reports (logged r') = case_reports (logged ?r)" .
  then have rm: "\<exists>r'. device_calculate ?f (removeAll ''9.9.9'' ?cl) = Inr r' \<and>
      testbed_vendor_dict r' = [(''ARM'', 2)] \<and> case_list r' = []"
    by auto
  show ?thesis
    by (intro conjI) (rule a ne nm di d fl ids rm ex)+
qed

subsection \<open>Several records with one identifier\<close>

lemma process_lines_count_kept:
  assumes "''all'' \<notin> set (case_list st0)" and "\<forall>l\<in>set pre. case_id_of l \<noteq> Some g"
    and "process_lines pre st0 = Inr st"
  shows "count_list (case_list st) g = count_list (case_list st0) g"
  using assms
proof (induction pre arbitrary: st0)
  case Nil
  then show ?case by simp
next
  case (Cons l rest)
  show ?case
  proof (cases "l = []")
    case True
    with Cons.prems show ?thesis by simp
  next
    case False
    with Cons.prems(3) obtain st1 where
      one: "process_line (strip l) st0 = Inr st1" and tail: "process_lines rest st1 = Inr st"
      by (auto split: sum.splits)
    from process_line_case_list [OF one] Cons.prems(1)
    have a1: "''all'' \<notin> set (case_list st1)" by blast
    from Cons.prems(2) have nl: "case_id_of l \<noteq> Some g" and nr: "\<forall>l\<in>set rest. case_id_of l \<noteq> Some g"
      by simp_all
    have "count_list (case_list st1) g = count_list (case_list st0) g"
      using process_line_explicit [OF Cons.prems(1) one] nl
      by (auto split: option.splits if_splits simp: count_list_remove1_other)
    with Cons.IH [OF a1 nr tail] show ?thesis by simp
  qed
qed

lemma process_line_selected_exact:
  assumes "\<not> re_match_comment line" and "re_match_case line = Some (g, role_vendor_str)"
    and "''all'' \<notin> set (case_list st)" and "g \<in> set (case_list st)"
  shows "process_line line st =
     (case tally_pairs (map (re_split CHR '':'') (re_split CHR '','' role_vendor_str))
             ([], testbed_vendor_dict st) of
        Inl e \<Rightarrow>
          Inl (e, logged st @
                 [Case_header g,
                  Role_vendor_pair (map (re_split CHR '':'') (re_split CHR '','' role_vendor_str))])
      | Inr (case_vendor_dict, tvd') \<Rightarrow>
          Inr \<lparr>testbed_vendor_dict = tvd', case_list = remove1 g (case_list st),
               logged = logged st @
                 [Case_header g,
                  Role_vendor_pair (map (re_split CHR '':'') (re_split CHR '','' role_vendor_str)),
                  Vendor_devices case_vendor_dict]\<rparr>)"
  using assms unfolding process_line_def list_remove_def Let_def
  by (auto split: sum.splits)

text \<open>
  Claim C10, as stated: under an explicit selection, of several records with one selected
  identifier only the first is processed. The selection is a list, and
  \<open>case_list.remove\<close> removes one occurrence: with the identifier twice in the list
  (\<open>-c 5.1.1 5.1.1\<close>) the second record with that identifier is processed too, and here
  it sets the tally.
\<close>

theorem C10_duplicate_selection_counterexample:
  "''all'' \<notin> set [''5.1.1'', ''5.1.1''] \<and> ''5.1.1'' \<in> set [''5.1.1'', ''5.1.1''] \<and>
   case_id_of (''5.1.1-Leader:ARM'' @ [LF]) = Some ''5.1.1'' \<and>
   case_id_of (''5.1.1-Leader:ARM,Router_1:ARM'' @ [LF]) = Some ''5.1.1'' \<and>
   device_calculate [''5.1.1-Leader:ARM'' @ [LF], ''5.1.1-Leader:ARM,Router_1:ARM'' @ [LF]]
     [''5.1.1'', ''5.1.1''] =
   Inr \<lparr>testbed_vendor_dict = [(''ARM'', 2)], case_list = [],
        logged = [Case_header ''5.1.1'', Role_vendor_pair [[''Leader'', ''ARM'']],
                  Vendor_devices [(''ARM'', 1)],
                  Case_header ''5.1.1'',
                  Role_vendor_pair [[''Leader'', ''ARM''], [''Router_1'', ''ARM'']],
                  Vendor_devices [(''ARM'', 2)],
                  Testbed_needed [(''ARM'', 2)]]\<rparr>"
  by code_simp

text \<open>
  Claim C10, amended: under an explicit selection in which the identifier \<open>g\<close> occurs
  exactly once, only the first record with the identifier \<open>g\<close> is processed, reported and
  tallied. Let the lines \<open>pre\<close> before the first record \<open>l1\<close> with the identifier \<open>g\<close>
  leave the state \<open>st\<close>. Then \<open>l1\<close> is processed from \<open>st\<close>: the header of \<open>g\<close> and the
  role-vendor list of \<open>l1\<close> are logged and its pairs are tallied into the test-bed tally
  (an error of the tally ends the run); if the tally succeeds, the tally of the case is
  logged, \<open>g\<close> is removed from the selection, and the test-bed tally of every vendor
  becomes the maximum of its old value and the number of pairs of \<open>l1\<close> with that vendor.
  From then on \<open>g\<close> is not in the selection, and every later record with the identifier
  \<open>g\<close>, whatever lines are processed in between, is skipped: the state after it is the
  state before it, so it is neither reported nor tallied. For a file without an empty
  line, the outcome of the whole run is that of the run on the file without that later
  record.
\<close>

theorem C10_first_record_only:
  assumes sel: "''all'' \<notin> set cl" and once: "count_list cl g = 1"
    and pre: "process_lines pre (initial_state cl) = Inr st"
    and nopre: "\<forall>l\<in>set pre. case_id_of l \<noteq> Some g"
    and c1: "\<not> re_match_comment (strip l1)"
    and m1: "re_match_case (strip l1) = Some (g, role_vendor_str)"
  shows "process_line (strip l1) st =
     (case tally_pairs (map (re_split CHR '':'') (re_split CHR '','' role_vendor_str))
             ([], testbed_vendor_dict st) of
        Inl e \<Rightarrow>
          Inl (e, logged st @
                 [Case_header g,
                  Role_vendor_pair (map (re_split CHR '':'') (re_split CHR '','' role_vendor_str))])
      | Inr (case_vendor_dict, tvd') \<Rightarrow>
          Inr \<lparr>testbed_vendor_dict = tvd', case_list = remove1 g (case_list st),
               logged = logged st @
                 [Case_header g,
                  Role_vendor_pair (map (re_split CHR '':'') (re_split CHR '','' role_vendor_str)),
                  Vendor_devices case_vendor_dict]\<rparr>) \<and>
   (\<forall>st1. process_line (strip l1) st = Inr st1 \<longrightarrow>
      (\<forall>v. counter_get (testbed_vendor_dict st1) v =
            max (counter_get (testbed_vendor_dict st) v)
                (vendor_count (map (re_split CHR '':'') (re_split CHR '','' role_vendor_str)) v)) \<and>
      g \<notin> set (case_list st1) \<and>
      (\<forall>later st2 l2. process_lines later st1 = Inr st2 \<longrightarrow> case_id_of l2 = Some g \<longrightarrow>
         g \<notin> set (case_list st2) \<and> process_line (strip l2) st2 = Inr st2)) \<and>
   (\<forall>later l2 post. [] \<notin> set pre \<longrightarrow> [] \<notin> set later \<longrightarrow> case_id_of l2 = Some g \<longrightarrow>
      device_calculate (pre @ l1 # later @ l2 # post) cl =
      device_calculate (pre @ l1 # later @ post) cl)"
proof -
  let ?ps = "map (re_split CHR '':'') (re_split CHR '','' role_vendor_str)"
  have a0: "''all'' \<notin> set (case_list (initial_state cl))"
    using sel by (simp add: initial_state_def)
  from process_lines_case_list [OF pre] sel
  have a: "''all'' \<notin> set (case_list st)" by (auto simp: initial_state_def)
  from process_lines_count_kept [OF a0 nopre pre] once
  have cnt: "count_list (case_list st) g = 1" by (simp add: initial_state_def)
  then have mem: "g \<in> set (case_list st)"
    using count_list_0_iff [of "case_list st" g] by auto
  note exact = process_line_selected_exact [OF c1 m1 a mem]
  have rest: "(\<forall>v. counter_get (testbed_vendor_dict st1) v =
            max (counter_get (testbed_vendor_dict st) v) (vendor_count ?ps v)) \<and>
      g \<notin> set (case_list st1) \<and>
      (\<forall>later st2 l2. process_lines later st1 = Inr st2 \<longrightarrow> case_id_of l2 = Some g \<longrightarrow>
         g \<notin> set (case_list st2) \<and> process_line (strip l2) st2 = Inr st2)"
    if ok: "process_line (strip l1) st = Inr st1" for st1
  proof (intro conjI allI impI)
    from ok exact obtain cvd where
      t: "tally_pairs ?ps ([], testbed_vendor_dict st) = Inr (cvd, testbed_vendor_dict st1)"
      and cl1: "case_list st1 = remove1 g (case_list st)"
      by (auto split: sum.splits)
    fix v
    from reachable_tally_max [OF pre, of v] have "0 \<le> counter_get (testbed_vendor_dict st) v"
      by blast
    with tally_pairs_counts [OF t, of v] vendor_count_nonneg [of ?ps v]
    show "counter_get (testbed_vendor_dict st1) v =
        max (counter_get (testbed_vendor_dict st) v) (vendor_count ?ps v)"
      by (auto simp: counter_get_Nil max_def)
  next
    from ok exact have cl1: "case_list st1 = remove1 g (case_list st)"
      by (auto split: sum.splits)
    with cnt show g1: "g \<notin> set (case_list st1)" by (simp add: remove1_single)
    from cl1 a have a1: "''all'' \<notin> set (case_list st1)"
      by (auto dest: set_remove1_subset [THEN subsetD])
    fix later st2 l2
    assume lt: "process_lines later st1 = Inr st2" and again: "case_id_of l2 = Some g"
    from process_lines_case_list [OF lt] g1 a1
    have g2: "g \<notin> set (case_list st2)" and a2: "''all'' \<notin> set (case_list st2)"
      by blast+
    from again obtain r2 where c2: "\<not> re_match_comment (strip l2)"
      and m2: "re_match_case (strip l2) = Some (g, r2)"
      by (auto simp: case_id_of_Some)
    from g2 show "g \<notin> set (case_list st2)" .
    from process_line_not_selected [OF c2 m2 a2 g2]
    show "process_line (strip l2) st2 = Inr st2" .
  qed
  have removed: "device_calculate (pre @ l1 # later @ l2 # post) cl =
      device_calculate (pre @ l1 # later @ post) cl"
    if np: "[] \<notin> set pre" and nl: "[] \<notin> set later" and again: "case_id_of l2 = Some g"
    for later l2 post
  proof -
    from m1 have l1: "l1 \<noteq> []"
      by (auto simp: strip_def re_match_case_def)
    from again have l2: "l2 \<noteq> []"
      by (auto simp: case_id_of_Some strip_def re_match_case_def)
    from np nl l1 have ne: "[] \<notin> set (pre @ l1 # later)" by auto
    have split: "process_lines ((pre @ l1 # later) @ more_lines) (initial_state cl) =
        (case process_lines (pre @ l1 # later) (initial_state cl) of
           Inl e \<Rightarrow> Inl e | Inr s \<Rightarrow> process_lines more_lines s)" for more_lines
      by (rule process_lines_append [OF ne])
    have "process_lines ((pre @ l1 # later) @ l2 # post) (initial_state cl) =
        process_lines ((pre @ l1 # later) @ post) (initial_state cl)"
    proof (cases "process_lines (pre @ l1 # later) (initial_state cl)")
      case (Inl e)
      then show ?thesis by (simp only: split sum.case)
    next
      case (Inr st2)
      from Inr pre np l1 obtain st1 where
        ok: "process_line (strip l1) st = Inr st1" and lt: "process_lines later st1 = Inr st2"
        by (auto simp: process_lines_append split: sum.splits)
      from rest [OF ok] lt again have "process_line (strip l2) st2 = Inr st2" by blast
      with l2 have "process_lines (l2 # post) st2 = process_lines post st2" by simp
      with Inr show ?thesis by (simp only: split sum.case)
    qed
    then show ?thesis by (simp add: device_calculate_def)
  qed
  from exact rest removed show ?thesis by blast
qed

theorem C10_first_record_only_witness:
  "''all'' \<notin> set [''5.1.1''] \<and> count_list [''5.1.1''] ''5.1.1'' = 1 \<and>
   process_lines [''5.2.1-Leader:Kirale'' @ [LF]] (initial_state [''5.1.1'']) =
     Inr \<lparr>testbed_vendor_dict = [], case_list = [''5.1.1''], logged = []\<rparr> \<and>
   case_id_of (''5.2.1-Leader:Kirale'' @ [LF]) = Some ''5.2.1'' \<and>
   \<not> re_match_comment (strip (''5.1.1-Leader:ARM'' @ [LF])) \<and>
   re_match_case (strip (''5.1.1-Leader:ARM'' @ [LF])) = Some (''5.1.1'', ''Leader:ARM'') \<and>
   process_line (strip (''5.1.1-Leader:ARM'' @ [LF]))
       \<lparr>testbed_vendor_dict = [], case_list = [''5.1.1''], logged = []\<rparr> =
     Inr \<lparr>testbed_vendor_dict = [(''ARM'', 1)], case_list = [],
          logged = [Case_header ''5.1.1'', Role_vendor_pair [[''Leader'', ''ARM'']],
                    Vendor_devices [(''ARM'', 1)]]\<rparr> \<and>
   process_lines [''5.2.1-Leader:Kirale'' @ [LF]]
       \<lparr>testbed_vendor_dict = [(''ARM'', 1)], case_list = [],
        logged = [Case_header ''5.1.1'', Role_vendor_pair [[''Leader'', ''ARM'']],
                  Vendor_devices [(''ARM'', 1)]]\<rparr> =
     Inr \<lparr>testbed_vendor_dict = [(''ARM'', 1)], case_list = [],
          logged = [Case_header ''5.1.1'', Role_vendor_pair [[''Leader'', ''ARM'']],
                    Vendor_devices [(''ARM'', 1)]]\<rparr> \<and>
   case_id_of (''5.1.1-Leader:ARM,Router_1:ARM'' @ [LF]) = Some ''5.1.1'' \<and>
   process_line (strip (''5.1.1-Leader:ARM,Router_1:ARM'' @ [LF]))
       \<lparr>testbed_vendor_dict = [(''ARM'', 1)], case_list = [],
        logged = [Case_header ''5.1.1'', Role_vendor_pair [[''Leader'', ''ARM'']],
                  Vendor_devices [(''ARM'', 1)]]\<rparr> =
     Inr \<lparr>testbed_vendor_dict = [(''ARM'', 1)], case_list = [],
          logged = [Case_header ''5.1.1'', Role_vendor_pair [[''Leader'', ''ARM'']],
                    Vendor_devices [(''ARM'', 1)]]\<rparr> \<and>
   device_calculate
       [''5.2.1-Leader:Kirale'' @ [LF], ''5.1.1-Leader:ARM'' @ [LF],
        ''5.2.1-Leader:Kirale'' @ [LF], ''5.1.1-Leader:ARM,Router_1:ARM'' @ [LF]] [''5.1.1''] =
     Inr \<lparr>testbed_vendor_dict = [(''ARM'', 1)], case_list = [],
          logged = [Case_header ''5.1.1'', Role_vendor_pair [[''Leader'', ''ARM'']],
                    Vendor_devices [(''ARM'', 1)], Testbed_needed [(''ARM'', 1)]]\<rparr>"
proof -
  let ?st = "\<lparr>testbed_vendor_dict = [], case_list = [''5.1.1''], logged = []\<rparr>"
  let ?st1 = "\<lparr>testbed_vendor_dict = [(''ARM'', 1)], case_list = [],
          logged = [Case_header ''5.1.1'', Role_vendor_pair [[''Leader'', ''ARM'']],
                    Vendor_devices [(''ARM'', 1)]]\<rparr>"
  have sel: "''all'' \<notin> set [''5.1.1'']" by simp
  have once: "count_list [''5.1.1''] ''5.1.1'' = 1" by simp
  have pre: "process_lines [''5.2.1-Leader:Kirale'' @ [LF]] (initial_state [''5.1.1'']) = Inr ?st"
    by code_simp
  have other: "case_id_of (''5.2.1-Leader:Kirale'' @ [LF]) = Some ''5.2.1''"
    by code_simp
  then have nopre: "\<forall>l\<in>set [''5.2.1-Leader:Kirale'' @ [LF]]. case_id_of l \<noteq> Some ''5.1.1''"
    by simp
  have c1: "\<not> re_match_comment (strip (''5.1.1-Leader:ARM'' @ [LF]))"
    by code_simp
  have m1: "re_match_case (strip (''5.1.1-Leader:ARM'' @ [LF])) = Some (''5.1.1'', ''Leader:ARM'')"
    by code_simp
  have later: "process_lines [''5.2.1-Leader:Kirale'' @ [LF]] ?st1 = Inr ?st1"
    by code_simp
  have again: "case_id_of (''5.1.1-Leader:ARM,Router_1:ARM'' @ [LF]) = Some ''5.1.1''"
    by code_simp
  have t: "tally_pairs (map (re_split CHR '':'') (re_split CHR '','' ''Leader:ARM''))
      ([], testbed_vendor_dict ?st) = Inr ([(''ARM'', 1)], [(''ARM'', 1)])"
    by code_simp
  note T = C10_first_record_only [OF sel once pre nopre c1 m1]
  from T have "process_line (strip (''5.1.1-Leader:ARM'' @ [LF])) ?st =
     (case tally_pairs (map (re_split CHR '':'') (re_split CHR '','' ''Leader:ARM''))
             ([], testbed_vendor_dict ?st) of
        Inl e \<Rightarrow>
          Inl (e, logged ?st @
                 [Case_header ''5.1.1'',
                  Role_vendor_pair (map (re_split CHR '':'') (re_split CHR '','' ''Leader:ARM''))])
      | Inr (case_vendor_dict, tvd') \<Rightarrow>
          Inr \<lparr>testbed_vendor_dict = tvd', case_list = remove1 ''5.1.1'' (case_list ?st),
               logged = logged ?st @
                 [Case_header ''5.1.1'',
                  Role_vendor_pair (map (re_split CHR '':'') (re_split CHR '','' ''Leader:ARM'')),
                  Vendor_devices case_vendor_dict]\<rparr>)"
    by (rule conjunct1)
  then have ok1: "process_line (strip (''5.1.1-Leader:ARM'' @ [LF])) ?st = Inr ?st1"
    unfolding t by (simp add: Let_def)
  from T [THEN conjunct2, THEN conjunct1, rule_format, OF ok1, THEN conjunct2, THEN conjunct2,
      rule_format, OF later again, THEN conjunct2]
  have skip: "process_line (strip (''5.1.1-Leader:ARM,Router_1:ARM'' @ [LF])) ?st1 = Inr ?st1" .
  have run: "device_calculate
       [''5.2.1-Leader:Kirale'' @ [LF], ''5.1.1-Leader:ARM'' @ [LF],
        ''5.2.1-Leader:Kirale'' @ [LF], ''5.1.1-Leader:ARM,Router_1:ARM'' @ [LF]] [''5.1.1''] =
     Inr \<lparr>testbed_vendor_dict = [(''ARM'', 1)], case_list = [],
          logged = [Case_header ''5.1.1'', Role_vendor_pair [[''Leader'', ''ARM'']],
                    Vendor_devices [(''ARM'', 1)], Testbed_needed [(''ARM'', 1)]]\<rparr>"
    by code_simp
  show ?thesis
    by (intro conjI) (rule sel once pre other c1 m1 ok1 later again skip run)+
qed

end
